theory Spec2Isabelle
  imports Complex_Main "HOL-Library.Sublist" "HOL-Library.Char_ord" "HOL-Library.List_Lexorder"
    "HOL-Library.Log_Nat"
begin

section \<open>Time values\<close>

text \<open>
  Python's \<open>timedelta\<close> counts whole microseconds, a naive \<open>datetime\<close> is a number of
  microseconds on the local time line and a \<open>date\<close> is a day number; \<open>dt.date()\<close> is the
  day the instant falls in and \<open>datetime.combine(d, datetime.min.time())\<close> is the first
  instant of the day. Day 0 is 1 January of year 1 and the last day a \<open>date\<close> can hold is
  31 December 9999.
\<close>

type_synonym timedelta = int
type_synonym datetime = int
type_synonym date = int

definition usec_per_day :: int where
  "usec_per_day = 86400000000"

definition date_of :: "datetime \<Rightarrow> date" where
  "date_of dt = dt div usec_per_day"

definition midnight :: "date \<Rightarrow> datetime" where
  "midnight d = d * usec_per_day"

definition days :: "int \<Rightarrow> timedelta" where
  "days n = n * usec_per_day"

definition hours :: "int \<Rightarrow> timedelta" where
  "hours n = n * 3600000000"

definition max_date :: date where
  "max_date = 3652058"

definition date_in_range :: "date \<Rightarrow> bool" where
  "date_in_range d = (0 \<le> d \<and> d \<le> max_date)"

definition datetime_in_range :: "datetime \<Rightarrow> bool" where
  "datetime_in_range dt = (0 \<le> dt \<and> dt < midnight (max_date + 1))"

section \<open>Errors\<close>

datatype error =
    ValueError
  | OverflowError
  | FileNotFoundError
  | FileExistsError
  | NotADirectoryError
  | IsADirectoryError
  | DirectoryNotEmpty
  | InvalidArgument
  | ShutilError

text \<open>
  Arithmetic of \<open>datetime\<close> and \<open>date\<close> raises OverflowError when the result leaves the
  years 1 to 9999. Adding a \<open>timedelta\<close> to a \<open>date\<close> uses its whole days only.
\<close>

definition datetime_plus :: "datetime \<Rightarrow> timedelta \<Rightarrow> error + datetime" where
  "datetime_plus dt td = (if datetime_in_range (dt + td) then Inr (dt + td) else Inl OverflowError)"

definition datetime_minus :: "datetime \<Rightarrow> timedelta \<Rightarrow> error + datetime" where
  "datetime_minus dt td = (if datetime_in_range (dt - td) then Inr (dt - td) else Inl OverflowError)"

definition date_plus :: "date \<Rightarrow> timedelta \<Rightarrow> error + date" where
  "date_plus d td =
     (if date_in_range (d + td div usec_per_day) then Inr (d + td div usec_per_day)
      else Inl OverflowError)"

section \<open>Double precision arithmetic\<close>

text \<open>
  A finite double is the rational it stands for. \<open>float_round q\<close> is the double nearest
  to \<open>q\<close>, ties going to the even significand of 53 bits: the result of one correctly
  rounded operation whose exact value is \<open>q\<close>. The exponent is not bounded here: the
  largest finite double is handled where a conversion can exceed it, and the results
  that could be subnormal are rounded to whole microseconds afterwards, for which the
  difference is far too small to matter.
\<close>

definition round_half_even :: "rat \<Rightarrow> int" where
  "round_half_even q =
     (let f = \<lfloor>q\<rfloor>; r = q - of_int f
      in if r < 1 / 2 then f else if 1 / 2 < r then f + 1 else if even f then f else f + 1)"

text \<open>The exponent of a positive rational: \<open>2 powi (ilog2 q) \<le> q < 2 powi (ilog2 q + 1)\<close>.\<close>

definition ilog2 :: "rat \<Rightarrow> int" where
  "ilog2 q =
     (let e0 = bitlen (fst (quotient_of q)) - bitlen (snd (quotient_of q))
      in if 2 powi e0 \<le> q then e0 else e0 - 1)"

definition float_round :: "rat \<Rightarrow> rat" where
  "float_round q =
     (if q = 0 then 0
      else (let u = 2 powi (ilog2 \<bar>q\<bar> - 52) in of_int (round_half_even (q / u)) * u))"

text \<open>
  A Python float: finite, an infinity or not a number. \<open>float_of_rat q\<close> rounds an exact
  value to a float; it is an infinity from \<open>2 ^ 1024\<close> on.
\<close>

datatype pyfloat = Finite rat | PosInf | NegInf | NaN

definition float_of_rat :: "rat \<Rightarrow> pyfloat" where
  "float_of_rat q =
     (let x = float_round q
      in if x \<noteq> 0 \<and> 1024 \<le> ilog2 \<bar>x\<bar> then (if x < 0 then NegInf else PosInf)
         else Finite x)"

text \<open>\<open>float(n)\<close> of an int raises OverflowError where the int is too large for a double.\<close>

definition float_of_int :: "int \<Rightarrow> error + pyfloat" where
  "float_of_int n =
     (case float_of_rat (of_int n) of Finite x \<Rightarrow> Inr (Finite x) | other \<Rightarrow> Inl OverflowError)"

text \<open>\<open>x * 365\<close> on floats.\<close>

fun float_times_365 :: "pyfloat \<Rightarrow> pyfloat" where
  "float_times_365 (Finite x) = float_of_rat (x * 365)"
| "float_times_365 PosInf = PosInf"
| "float_times_365 NegInf = NegInf"
| "float_times_365 NaN = NaN"

text \<open>\<open>x < 0\<close> on a float.\<close>

fun float_negative :: "pyfloat \<Rightarrow> bool" where
  "float_negative (Finite x) = (x < 0)"
| "float_negative PosInf = False"
| "float_negative NegInf = True"
| "float_negative NaN = False"

section \<open>The \<open>timedelta\<close> constructor\<close>

text \<open>
  A \<open>timedelta\<close> holds at most 999999999 days either side of zero; the constructor raises
  OverflowError beyond.
\<close>

definition new_timedelta :: "int \<Rightarrow> error + timedelta" where
  "new_timedelta us =
     (if us div usec_per_day < - 999999999 \<or> 999999999 < us div usec_per_day
      then Inl OverflowError else Inr us)"

text \<open>\<open>timedelta(days=n)\<close> for an int \<open>n\<close>: exact.\<close>

definition timedelta_int_days :: "int \<Rightarrow> error + timedelta" where
  "timedelta_int_days n = new_timedelta (n * usec_per_day)"

text \<open>
  \<open>timedelta(unit=x)\<close> for a float \<open>x\<close> and a unit of \<open>factor\<close> microseconds, as CPython
  computes it: the whole part of \<open>x\<close> is multiplied exactly, the fractional part is
  multiplied in double arithmetic, and the sum is rounded to a whole microsecond, ties
  to even. An infinity raises OverflowError and a NaN raises ValueError.
\<close>

definition truncate :: "rat \<Rightarrow> int" where
  "truncate x = (if 0 \<le> x then \<lfloor>x\<rfloor> else \<lceil>x\<rceil>)"

fun timedelta_float :: "int \<Rightarrow> pyfloat \<Rightarrow> error + timedelta" where
  "timedelta_float factor (Finite x) =
     (let intpart = truncate x; fracpart = x - of_int intpart
      in new_timedelta
           (round_half_even (of_int (intpart * factor) + float_round (of_int factor * fracpart))))"
| "timedelta_float factor PosInf = Inl OverflowError"
| "timedelta_float factor NegInf = Inl OverflowError"
| "timedelta_float factor NaN = Inl ValueError"

definition timedelta_days :: "pyfloat \<Rightarrow> error + timedelta" where
  "timedelta_days x = timedelta_float 86400000000 x"

definition timedelta_hours :: "pyfloat \<Rightarrow> error + timedelta" where
  "timedelta_hours x = timedelta_float 3600000000 x"

definition timedelta_weeks :: "pyfloat \<Rightarrow> error + timedelta" where
  "timedelta_weeks x = timedelta_float 604800000000 x"

section \<open>Duration parsing (config.py \<open>_parse_duration\<close>, service.py \<open>_parse_offset\<close>)\<close>

text \<open>
  The values the two parsers can be handed; \<open>PyOther\<close> is any value that is not a
  timedelta, bool, int, float or str. A string is the list of its code points, and the
  model covers the strings whose code points are below 256 (Latin-1): a \<open>char\<close> is the
  code point \<open>of_char\<close> gives.
\<close>

datatype pyval =
    PyTimedelta timedelta
  | PyBool bool
  | PyInt int
  | PyFloat pyfloat
  | PyStr string
  | PyOther

text \<open>
  \<open>str.strip()\<close> removes the white space of \<open>str.isspace\<close> at both ends: below 256 these
  are the code points 9 to 13, 28 to 32, 133 and 160. \<open>str.lower()\<close> maps \<open>A\<close> to \<open>Z\<close> and
  the capital letters 192 to 222, the multiplication sign 215 apart, 32 places up.
\<close>

definition is_space :: "char \<Rightarrow> bool" where
  "is_space c = ((of_char c :: nat) \<in> set [9, 10, 11, 12, 13, 28, 29, 30, 31, 32, 133, 160])"

definition strip :: "string \<Rightarrow> string" where
  "strip s = rev (dropWhile is_space (rev (dropWhile is_space s)))"

definition lower_char :: "char \<Rightarrow> char" where
  "lower_char c =
     (let n = (of_char c :: nat)
      in if (65 \<le> n \<and> n \<le> 90) \<or> (192 \<le> n \<and> n \<le> 222 \<and> n \<noteq> 215) then char_of (n + 32)
         else c)"

definition lower :: "string \<Rightarrow> string" where
  "lower s = map lower_char s"

text \<open>\<open>\d\<close> matches a decimal digit; below 256 these are \<open>0\<close> to \<open>9\<close>.\<close>

definition is_digit :: "char \<Rightarrow> bool" where
  "is_digit c = (48 \<le> (of_char c :: nat) \<and> (of_char c :: nat) \<le> 57)"

definition digits_value :: "string \<Rightarrow> nat" where
  "digits_value ds = foldl (\<lambda>a c. 10 * a + (of_char c - 48)) 0 ds"

text \<open>
  \<open>re.match(r"^(\d+)([hdwy])$", text)\<close> and \<open>re.match(r"^(\d+)$", text)\<close>, giving the
  groups. (The text handed to them is stripped, so the match of \<open>$\<close> before a final
  newline cannot arise.)
\<close>

definition match_amount_unit :: "string \<Rightarrow> (string \<times> char) option" where
  "match_amount_unit text =
     (if text \<noteq> [] \<and> butlast text \<noteq> [] \<and> list_all is_digit (butlast text)
         \<and> last text \<in> set ''hdwy''
      then Some (butlast text, last text) else None)"

definition match_amount :: "string \<Rightarrow> string option" where
  "match_amount text = (if text \<noteq> [] \<and> list_all is_digit text then Some text else None)"

text \<open>
  The string branch, which the two parsers share word for word: normalise, try the two
  patterns in order, default the unit to days, convert the digits with \<open>float\<close>, build
  the \<open>timedelta\<close>.
\<close>

definition parse_text :: "string \<Rightarrow> error + timedelta" where
  "parse_text value =
     (let text = lower (strip value);
          m = (case match_amount_unit text of
                 Some (a, u) \<Rightarrow> Some (a, u)
               | None \<Rightarrow> (case match_amount text of
                            Some a \<Rightarrow> Some (a, CHR ''d'')
                          | None \<Rightarrow> None))
      in case m of
           None \<Rightarrow> Inl ValueError
         | Some (a, unit) \<Rightarrow>
             (let amount = float_of_rat (of_nat (digits_value a))
              in if unit = CHR ''h'' then timedelta_hours amount
                 else if unit = CHR ''d'' then timedelta_days amount
                 else if unit = CHR ''w'' then timedelta_weeks amount
                 else if unit = CHR ''y'' then timedelta_days (float_times_365 amount)
                 else Inl ValueError))"

text \<open>\<open>timedelta(days=float(value))\<close> for an int.\<close>

definition timedelta_days_of_int :: "int \<Rightarrow> error + timedelta" where
  "timedelta_days_of_int n =
     (case float_of_int n of Inl e \<Rightarrow> Inl e | Inr x \<Rightarrow> timedelta_days x)"

text \<open>
  \<open>_parse_duration\<close> of config.py. A bool is an int in Python, so it takes the numeric
  branch; nothing is compared with zero.
\<close>

fun parse_duration :: "pyval \<Rightarrow> error + timedelta" where
  "parse_duration (PyTimedelta td) = Inr td"
| "parse_duration (PyBool b) = timedelta_days_of_int (if b then 1 else 0)"
| "parse_duration (PyInt n) = timedelta_days_of_int n"
| "parse_duration (PyFloat x) = timedelta_days x"
| "parse_duration (PyStr s) = parse_text s"
| "parse_duration PyOther = Inl ValueError"

text \<open>\<open>_parse_offset\<close> of service.py: the same, with the checks on sign and on bool.\<close>

fun parse_offset :: "pyval \<Rightarrow> error + timedelta" where
  "parse_offset (PyTimedelta td) = (if td < 0 then Inl ValueError else Inr td)"
| "parse_offset (PyBool b) = Inl ValueError"
| "parse_offset (PyInt n) = (if n < 0 then Inl ValueError else timedelta_days_of_int n)"
| "parse_offset (PyFloat x) = (if float_negative x then Inl ValueError else timedelta_days x)"
| "parse_offset (PyStr s) = parse_text s"
| "parse_offset PyOther = Inl ValueError"

text \<open>
  The claim's reading of an invalid string: the string itself matches neither pattern.
  What the code tests is the normalised text.
\<close>

definition matches_neither :: "string \<Rightarrow> bool" where
  "matches_neither s = (match_amount_unit s = None \<and> match_amount s = None)"

definition normalised_matches_neither :: "string \<Rightarrow> bool" where
  "normalised_matches_neither s = matches_neither (lower (strip s))"


section \<open>Paths (pathlib, POSIX flavour)\<close>

text \<open>
  A pure path is its root (empty for a relative path, \<open>/\<close> or \<open>//\<close> for an absolute
  one) and its components. \<open>Path s\<close> parses a string the way pathlib does: empty
  components and dot components are dropped. Two paths are equal when root and
  components are.
\<close>

record ppath =
  anchor :: string
  comps :: "string list"

fun split_sep :: "string \<Rightarrow> string list" where
  "split_sep [] = [[]]"
| "split_sep (c # cs) =
     (if c = CHR ''/'' then [] # split_sep cs
      else (case split_sep cs of w # ws \<Rightarrow> (c # w) # ws | [] \<Rightarrow> [[c]]))"

definition Path :: "string \<Rightarrow> ppath" where
  "Path s =
     \<lparr> anchor = (if take 1 s = ''/''
                 then (if take 2 s = ''//'' \<and> take 3 s \<noteq> ''///'' then ''//'' else ''/'')
                 else []),
       comps = filter (\<lambda>c. c \<noteq> [] \<and> c \<noteq> ''.'') (split_sep s) \<rparr>"

definition is_absolute :: "ppath \<Rightarrow> bool" where
  "is_absolute p = (anchor p \<noteq> [])"

definition parts :: "ppath \<Rightarrow> string list" where
  "parts p = (if anchor p = [] then [] else [anchor p]) @ comps p"

definition name :: "ppath \<Rightarrow> string" where
  "name p = (if comps p = [] then [] else last (comps p))"

fun join_sep :: "string list \<Rightarrow> string" where
  "join_sep [] = []"
| "join_sep [c] = c"
| "join_sep (c # d # cs) = c @ ''/'' @ join_sep (d # cs)"

definition as_posix :: "ppath \<Rightarrow> string" where
  "as_posix p = (if anchor p = [] \<and> comps p = [] then ''.'' else anchor p @ join_sep (comps p))"

text \<open>
  \<open>absolute_path.relative_to(rule.path)\<close> on absolute paths given by their components
  below the root directory; it raises ValueError when the path is not below the base.
\<close>

definition relative_to :: "string list \<Rightarrow> string list \<Rightarrow> error + ppath" where
  "relative_to p base =
     (if prefix base p then Inr \<lparr> anchor = [], comps = drop (length base) p \<rparr>
      else Inl ValueError)"

section \<open>Rules (service.py \<open>PatternRule\<close>, \<open>FolderRule\<close>, \<open>Alert\<close>)\<close>

record PatternRule =
  pattern :: string
  retention :: timedelta
  notify_before :: "timedelta list"
  action :: string

record FolderRule =
  path :: "string list"
  retention :: timedelta
  notify_before :: "timedelta list"
  exemptions :: "string list"
  action :: string
  patterns :: "PatternRule list"

record Alert =
  folder :: "string list"
  files :: "ppath list"
  alert_date :: date
  days_until_deletion :: int

text \<open>
  Python's regular expression engine is not part of the repository. The functions that
  call \<open>re.match(pattern, name)\<close> take it as the parameter \<open>rm\<close>:
  \<open>rm pattern name\<close> holds when \<open>re.match\<close> returns a match object.
\<close>

type_synonym matcher = "string \<Rightarrow> string \<Rightarrow> bool"

text \<open>
  \<open>re.match\<close> on the patterns that are an optional caret followed by characters that
  stand for themselves: the pattern's text must begin the name. Used where a concrete
  matcher is needed.
\<close>

definition literal_match :: matcher where
  "literal_match p s = prefix (if take 1 p = ''^'' then drop 1 p else p) s"

section \<open>Policy resolution (\<open>_effective_policy\<close>, \<open>_effective_notify\<close>, \<open>_is_exempt\<close>)\<close>

fun policy_loop :: "matcher \<Rightarrow> PatternRule list \<Rightarrow> FolderRule \<Rightarrow> ppath \<Rightarrow> timedelta \<times> string" where
  "policy_loop rm [] rule relative_path = (FolderRule.retention rule, FolderRule.action rule)"
| "policy_loop rm (pattern_rule # rest) rule relative_path =
     (if rm (pattern pattern_rule) (name relative_path)
      then (PatternRule.retention pattern_rule, PatternRule.action pattern_rule)
      else policy_loop rm rest rule relative_path)"

definition effective_policy :: "matcher \<Rightarrow> FolderRule \<Rightarrow> ppath \<Rightarrow> timedelta \<times> string" where
  "effective_policy rm rule relative_path = policy_loop rm (patterns rule) rule relative_path"

fun notify_loop :: "matcher \<Rightarrow> PatternRule list \<Rightarrow> FolderRule \<Rightarrow> ppath \<Rightarrow> timedelta list" where
  "notify_loop rm [] rule relative_path = FolderRule.notify_before rule"
| "notify_loop rm (pattern_rule # rest) rule relative_path =
     (if rm (pattern pattern_rule) (name relative_path)
      then PatternRule.notify_before pattern_rule
      else notify_loop rm rest rule relative_path)"

definition effective_notify :: "matcher \<Rightarrow> FolderRule \<Rightarrow> ppath \<Rightarrow> timedelta list" where
  "effective_notify rm rule relative_path = notify_loop rm (patterns rule) rule relative_path"

text \<open>
  The loop of \<open>_is_exempt\<close> over the exemption strings: an absolute exemption is
  compared with the relative path and the loop goes on (\<open>continue\<close>); a relative one
  is tried as a prefix of the parts, then by its final component.
\<close>

fun exempt_loop :: "string list \<Rightarrow> ppath \<Rightarrow> bool" where
  "exempt_loop [] relative_path = False"
| "exempt_loop (exemption # rest) relative_path =
     (let ex_path = Path exemption; rel_parts = parts relative_path
      in if is_absolute ex_path
         then (if relative_path = ex_path then True else exempt_loop rest relative_path)
         else (let ex_parts = parts ex_path
               in if length ex_parts \<le> length rel_parts
                     \<and> take (length ex_parts) rel_parts = ex_parts then True
                  else if name ex_path \<noteq> [] \<and> name ex_path = name relative_path then True
                  else exempt_loop rest relative_path))"

definition is_exempt :: "FolderRule \<Rightarrow> ppath \<Rightarrow> bool" where
  "is_exempt rule relative_path =
     (if exemptions rule = [] then False else exempt_loop (exemptions rule) relative_path)"

text \<open>
  The exemption test in the words of the specification: some exemption string, as a
  path, (a) is absolute and equals the relative path, or (b) is relative and a
  component-wise prefix of it, or (c) ends in the entry's base name.
\<close>

definition spec_exempt :: "FolderRule \<Rightarrow> ppath \<Rightarrow> bool" where
  "spec_exempt rule relative_path =
     list_ex (\<lambda>exemption.
        (is_absolute (Path exemption) \<and> Path exemption = relative_path)
        \<or> (\<not> is_absolute (Path exemption) \<and> prefix (parts (Path exemption)) (parts relative_path))
        \<or> name (Path exemption) = name relative_path)
       (exemptions rule)"

text \<open>The test the code makes: clause (c) is reached by relative exemptions only.\<close>

definition code_exempt :: "FolderRule \<Rightarrow> ppath \<Rightarrow> bool" where
  "code_exempt rule relative_path =
     list_ex (\<lambda>exemption.
        (is_absolute (Path exemption) \<and> Path exemption = relative_path)
        \<or> (\<not> is_absolute (Path exemption) \<and> prefix (parts (Path exemption)) (parts relative_path))
        \<or> (\<not> is_absolute (Path exemption) \<and> name (Path exemption) = name relative_path))
       (exemptions rule)"


section \<open>The file system\<close>

text \<open>
  The file system is a table from absolute paths (the components below the root
  directory, so \<open>[]\<close> is the root directory itself) to nodes, in the order in which a
  directory scan finds them. A node is a directory or a file (symbolic links and
  permissions are outside the model), with its time of last modification in
  microseconds on the local time line, as \<open>datetime.fromtimestamp(st_mtime)\<close> reads it,
  and its content.
\<close>

record node =
  is_dir :: bool
  mtime :: datetime
  data :: string

type_synonym fs = "(string list \<times> node) list"

definition stat :: "fs \<Rightarrow> string list \<Rightarrow> error + node" where
  "stat fs p = (case map_of fs p of None \<Rightarrow> Inl FileNotFoundError | Some n \<Rightarrow> Inr n)"

definition path_exists :: "fs \<Rightarrow> string list \<Rightarrow> bool" where
  "path_exists fs p = (map_of fs p \<noteq> None)"

definition path_is_dir :: "fs \<Rightarrow> string list \<Rightarrow> bool" where
  "path_is_dir fs p = (case map_of fs p of None \<Rightarrow> False | Some n \<Rightarrow> is_dir n)"

definition scandir :: "fs \<Rightarrow> string list \<Rightarrow> string list" where
  "scandir fs top_dir = map last (filter (\<lambda>p. p \<noteq> [] \<and> butlast p = top_dir) (map fst fs))"

definition deepest :: "fs \<Rightarrow> nat" where
  "deepest fs = foldr max (map (\<lambda>e. length (fst e)) fs) 0"

lemma deepest_ge: "(p, n) \<in> set fs \<Longrightarrow> length p \<le> deepest fs"
  unfolding deepest_def by (induction fs) auto

lemma path_is_dir_key: "path_is_dir fs p \<Longrightarrow> \<exists>n. (p, n) \<in> set fs"
  unfolding path_is_dir_def by (auto split: option.splits dest: map_of_SomeD)

text \<open>
  \<open>os.walk(top_dir, topdown=True)\<close>: nothing when \<open>top_dir\<close> cannot be scanned; else the
  triple of \<open>top_dir\<close>, the names of its directories and the names of its other entries,
  followed by the walks of the directories in turn.
\<close>

function os_walk :: "fs \<Rightarrow> string list \<Rightarrow> (string list \<times> string list \<times> string list) list" where
  "os_walk fs top_dir =
     (if \<not> path_is_dir fs top_dir then []
      else (top_dir,
            filter (\<lambda>n. path_is_dir fs (top_dir @ [n])) (scandir fs top_dir),
            filter (\<lambda>n. \<not> path_is_dir fs (top_dir @ [n])) (scandir fs top_dir))
           # concat (map (\<lambda>d. os_walk fs (top_dir @ [d]))
                       (filter (\<lambda>n. path_is_dir fs (top_dir @ [n])) (scandir fs top_dir))))"
  by pat_completeness auto

termination
proof (relation "measure (\<lambda>(fs, top_dir). Suc (deepest fs) - length top_dir)")
  show "wf (measure (\<lambda>(fs, top_dir). Suc (deepest fs) - length top_dir))"
    by simp
next
  fix fs :: fs and top_dir :: "string list" and d :: string
  assume "d \<in> set (filter (\<lambda>n. path_is_dir fs (top_dir @ [n])) (scandir fs top_dir))"
  then have "path_is_dir fs (top_dir @ [d])"
    by simp
  then obtain n where "(top_dir @ [d], n) \<in> set fs"
    using path_is_dir_key by blast
  then have "length (top_dir @ [d]) \<le> deepest fs"
    by (rule deepest_ge)
  then show "((fs, top_dir @ [d]), (fs, top_dir)) \<in> measure (\<lambda>(fs, top_dir). Suc (deepest fs) - length top_dir)"
    by simp
qed

declare os_walk.simps [simp del]

fun all_or_error :: "(error + 'a) list \<Rightarrow> error + 'a list" where
  "all_or_error [] = Inr []"
| "all_or_error (x # xs) =
     (case x of
        Inl e \<Rightarrow> Inl e
      | Inr v \<Rightarrow> (case all_or_error xs of Inl e \<Rightarrow> Inl e | Inr vs \<Rightarrow> Inr (v # vs)))"

section \<open>Traversal (\<open>_iter_rule_entries\<close>, \<open>_collect_entries\<close>, \<open>_modified_datetime\<close>)\<close>

definition entry :: "string list \<Rightarrow> string list \<Rightarrow> string \<Rightarrow> error + (string list \<times> ppath)" where
  "entry base root_path nm =
     (let absolute_path = root_path @ [nm]
      in case relative_to absolute_path base of
           Inl e \<Rightarrow> Inl e
         | Inr relative_path \<Rightarrow> Inr (absolute_path, relative_path))"

text \<open>For each directory of the walk: its files first, then its directories.\<close>

definition iter_rule_entries :: "fs \<Rightarrow> FolderRule \<Rightarrow> error + (string list \<times> ppath) list" where
  "iter_rule_entries fs rule =
     all_or_error
       (concat (map (\<lambda>(root_path, dirs, nondirs).
                       map (entry (path rule) root_path) nondirs
                       @ map (entry (path rule) root_path) dirs)
                    (os_walk fs (path rule))))"

text \<open>
  \<open>datetime.fromtimestamp(path.stat().st_mtime)\<close>: it raises when the time stamp has no
  \<open>datetime\<close>, that is outside the years 1 to 9999.
\<close>

definition modified_datetime :: "fs \<Rightarrow> string list \<Rightarrow> error + datetime" where
  "modified_datetime fs p =
     (case stat fs p of
        Inl e \<Rightarrow> Inl e
      | Inr n \<Rightarrow> if datetime_in_range (mtime n) then Inr (mtime n) else Inl ValueError)"

definition collect_entries :: "fs \<Rightarrow> FolderRule \<Rightarrow> error + (string list \<times> ppath \<times> datetime) list" where
  "collect_entries fs rule =
     (case iter_rule_entries fs rule of
        Inl e \<Rightarrow> Inl e
      | Inr found \<Rightarrow>
          all_or_error
            (map (\<lambda>(absolute_path, relative_path).
                    case modified_datetime fs absolute_path of
                      Inl e \<Rightarrow> Inl e
                    | Inr m \<Rightarrow> Inr (absolute_path, relative_path, m))
                 found))"


section \<open>Alert scheduling (\<open>upcoming_alerts\<close>)\<close>

text \<open>
  The \<open>as_of\<close> argument is absent, a date or a datetime; \<open>_normalize_datetime\<close> reads
  the clock (\<open>now\<close>) when it is absent and takes a date at its first instant.
\<close>

datatype as_of_arg = AsOfNone | AsOfDatetime datetime | AsOfDate date

fun normalize_datetime :: "datetime \<Rightarrow> as_of_arg \<Rightarrow> datetime" where
  "normalize_datetime now AsOfNone = now"
| "normalize_datetime now (AsOfDatetime v) = v"
| "normalize_datetime now (AsOfDate v) = midnight v"

text \<open>\<open>as_of_date + timedelta(days=window_days)\<close>.\<close>

definition window_end :: "date \<Rightarrow> int \<Rightarrow> error + date" where
  "window_end as_of_date window_days =
     (case timedelta_int_days window_days of
        Inl e \<Rightarrow> Inl e
      | Inr window \<Rightarrow> date_plus as_of_date window)"

text \<open>
  A registration is one \<open>folder_alerts.append\<close>: the alert date and folder it is filed
  under, and the pair of relative path and due date that is appended.
\<close>

type_synonym registration = "date \<times> string list \<times> ppath \<times> date"

fun offsets_loop ::
  "timedelta list \<Rightarrow> datetime \<Rightarrow> date \<Rightarrow> date \<Rightarrow> string list \<Rightarrow> ppath
     \<Rightarrow> error + registration list" where
  "offsets_loop [] due_dt as_of_date end_date rule_path relative_path = Inr []"
| "offsets_loop (notify_offset # rest) due_dt as_of_date end_date rule_path relative_path =
     (case datetime_minus due_dt notify_offset of
        Inl e \<Rightarrow> Inl e
      | Inr alert_dt \<Rightarrow>
          (case offsets_loop rest due_dt as_of_date end_date rule_path relative_path of
             Inl e \<Rightarrow> Inl e
           | Inr regs \<Rightarrow>
               if date_of alert_dt < as_of_date \<or> date_of alert_dt > end_date then Inr regs
               else Inr ((date_of alert_dt, rule_path, relative_path, date_of due_dt) # regs)))"

definition entry_registrations ::
  "matcher \<Rightarrow> fs \<Rightarrow> FolderRule \<Rightarrow> datetime \<Rightarrow> date \<Rightarrow> string list \<times> ppath
     \<Rightarrow> error + registration list" where
  "entry_registrations rm fs rule as_of_dt end_date e =
     (case e of (absolute_path, relative_path) \<Rightarrow>
        if is_exempt rule relative_path then Inr []
        else (case modified_datetime fs absolute_path of
                Inl err \<Rightarrow> Inl err
              | Inr modified_dt \<Rightarrow>
                  (case datetime_plus modified_dt (fst (effective_policy rm rule relative_path)) of
                     Inl err \<Rightarrow> Inl err
                   | Inr due_dt \<Rightarrow>
                       if due_dt < as_of_dt then Inr []
                       else offsets_loop (effective_notify rm rule relative_path) due_dt
                              (date_of as_of_dt) end_date (path rule) relative_path)))"

definition rule_registrations ::
  "matcher \<Rightarrow> fs \<Rightarrow> datetime \<Rightarrow> date \<Rightarrow> FolderRule \<Rightarrow> error + registration list" where
  "rule_registrations rm fs as_of_dt end_date rule =
     (if \<not> path_exists fs (path rule) \<or> \<not> path_is_dir fs (path rule) then Inr []
      else (case iter_rule_entries fs rule of
              Inl e \<Rightarrow> Inl e
            | Inr found \<Rightarrow>
                (case all_or_error (map (entry_registrations rm fs rule as_of_dt end_date) found) of
                   Inl e \<Rightarrow> Inl e
                 | Inr regs \<Rightarrow> Inr (concat regs))))"

definition registrations ::
  "matcher \<Rightarrow> fs \<Rightarrow> FolderRule list \<Rightarrow> datetime \<Rightarrow> date \<Rightarrow> error + registration list" where
  "registrations rm fs rules as_of_dt end_date =
     (case all_or_error (map (rule_registrations rm fs as_of_dt end_date) rules) of
        Inl e \<Rightarrow> Inl e
      | Inr regs \<Rightarrow> Inr (concat regs))"

text \<open>
  A dict keeps its keys in the order of their first insertion: an association list.
  \<open>setdefault_apply k f d\<close> is \<open>m[k] = f(m.setdefault(k, d))\<close>.
\<close>

fun setdefault_apply :: "'k \<Rightarrow> ('v \<Rightarrow> 'v) \<Rightarrow> 'v \<Rightarrow> ('k \<times> 'v) list \<Rightarrow> ('k \<times> 'v) list" where
  "setdefault_apply k f d [] = [(k, f d)]"
| "setdefault_apply k f d ((k', v) # kvs) =
     (if k' = k then (k', f v) # kvs else (k', v) # setdefault_apply k f d kvs)"

type_synonym schedule = "(date \<times> (string list \<times> (ppath \<times> date) list) list) list"

definition register :: "schedule \<Rightarrow> registration \<Rightarrow> schedule" where
  "register sched r =
     (case r of (a_date, rule_path, relative_path, due) \<Rightarrow>
        setdefault_apply a_date
          (setdefault_apply rule_path (\<lambda>folder_alerts. folder_alerts @ [(relative_path, due)]) [])
          [] sched)"

text \<open>
  \<open>math.ceil((datetime.combine(due, datetime.min.time()) - as_of_dt).total_seconds() / 86400)\<close>:
  \<open>total_seconds()\<close> is the quotient of the microseconds by a million as a double, which
  is then divided by 86400 in double arithmetic.
\<close>

definition total_seconds :: "timedelta \<Rightarrow> rat" where
  "total_seconds td = float_round (of_int td / 1000000)"

definition days_until :: "datetime \<Rightarrow> date \<Rightarrow> int" where
  "days_until as_of_dt due = \<lceil>float_round (total_seconds (midnight due - as_of_dt) / 86400)\<rceil>"

definition py_min :: "int list \<Rightarrow> error + int" where
  "py_min xs = (if xs = [] then Inl ValueError else Inr (min_list xs))"

definition folder_alert ::
  "datetime \<Rightarrow> date \<Rightarrow> string list \<times> (ppath \<times> date) list \<Rightarrow> error + Alert" where
  "folder_alert as_of_dt a_date fe =
     (case fe of (folder_path, entries) \<Rightarrow>
        (let sorted_entries = sort_key (\<lambda>item. as_posix (fst item)) entries
         in case py_min (map (\<lambda>item. days_until as_of_dt (snd item)) sorted_entries) of
              Inl e \<Rightarrow> Inl e
            | Inr d \<Rightarrow>
                Inr \<lparr> folder = folder_path, files = map fst sorted_entries,
                      alert_date = a_date, days_until_deletion = d \<rparr>))"

definition date_alerts ::
  "datetime \<Rightarrow> date \<times> (string list \<times> (ppath \<times> date) list) list \<Rightarrow> error + (date \<times> Alert list)" where
  "date_alerts as_of_dt df =
     (case df of (a_date, folders) \<Rightarrow>
        (case all_or_error (map (folder_alert as_of_dt a_date) folders) of
           Inl e \<Rightarrow> Inl e
         | Inr alerts \<Rightarrow> Inr (a_date, alerts)))"

definition upcoming_alerts ::
  "matcher \<Rightarrow> fs \<Rightarrow> FolderRule list \<Rightarrow> datetime \<Rightarrow> as_of_arg \<Rightarrow> int
     \<Rightarrow> error + (date \<times> Alert list) list" where
  "upcoming_alerts rm fs rules now as_of window_days =
     (let as_of_dt = normalize_datetime now as_of;
          as_of_date = date_of as_of_dt
      in case window_end as_of_date window_days of
           Inl e \<Rightarrow> Inl e
         | Inr end_date \<Rightarrow>
             (case registrations rm fs rules as_of_dt end_date of
                Inl e \<Rightarrow> Inl e
              | Inr regs \<Rightarrow> all_or_error (map (date_alerts as_of_dt) (foldl register [] regs))))"

text \<open>
  The group of an alert date and a folder, read off the registrations: the pairs filed
  under them, in the order of filing.
\<close>

definition group_of :: "registration list \<Rightarrow> date \<Rightarrow> string list \<Rightarrow> (ppath \<times> date) list" where
  "group_of regs d f = map (\<lambda>r. snd (snd r)) (filter (\<lambda>r. fst r = d \<and> fst (snd r) = f) regs)"


section \<open>Changing the file system\<close>

text \<open>
  The calls of \<open>os\<close>, \<open>pathlib\<close> and \<open>shutil\<close> that change the file system, on one
  device and without symbolic links. Each takes the time at which it happens: a
  directory's modification time is set when an entry is added to it or removed from it,
  and a new directory is stamped with it. An entry that is moved keeps its own time.
\<close>

definition touch_parent :: "datetime \<Rightarrow> string list \<Rightarrow> fs \<Rightarrow> fs" where
  "touch_parent now p fs =
     (if p = [] then fs
      else map (\<lambda>e. if fst e = butlast p then (fst e, (snd e)\<lparr> mtime := now \<rparr>) else e) fs)"

definition has_entries :: "fs \<Rightarrow> string list \<Rightarrow> bool" where
  "has_entries fs p = list_ex (\<lambda>e. prefix p (fst e) \<and> fst e \<noteq> p) fs"

text \<open>\<open>os.rmdir\<close>: the directory must be empty.\<close>

definition os_rmdir :: "datetime \<Rightarrow> string list \<Rightarrow> fs \<Rightarrow> error + fs" where
  "os_rmdir now p fs =
     (case map_of fs p of
        None \<Rightarrow> Inl FileNotFoundError
      | Some n \<Rightarrow>
          if \<not> is_dir n then Inl NotADirectoryError
          else if has_entries fs p then Inl DirectoryNotEmpty
          else Inr (touch_parent now p (filter (\<lambda>e. fst e \<noteq> p) fs)))"

text \<open>
  \<open>shutil.rmtree\<close>: everything below the directory is removed, then the directory
  itself with \<open>os.rmdir\<close>.
\<close>

definition rmtree :: "datetime \<Rightarrow> string list \<Rightarrow> fs \<Rightarrow> error + fs" where
  "rmtree now p fs =
     (case map_of fs p of
        None \<Rightarrow> Inl FileNotFoundError
      | Some n \<Rightarrow>
          if \<not> is_dir n then Inl NotADirectoryError
          else os_rmdir now p (filter (\<lambda>e. \<not> (prefix p (fst e) \<and> fst e \<noteq> p)) fs))"

text \<open>\<open>os.unlink\<close>, and \<open>Path.unlink(missing_ok=True)\<close> which lets a missing file pass.\<close>

definition os_unlink :: "datetime \<Rightarrow> string list \<Rightarrow> fs \<Rightarrow> error + fs" where
  "os_unlink now p fs =
     (case map_of fs p of
        None \<Rightarrow> Inl FileNotFoundError
      | Some n \<Rightarrow>
          if is_dir n then Inl IsADirectoryError
          else Inr (touch_parent now p (filter (\<lambda>e. fst e \<noteq> p) fs)))"

definition unlink_missing_ok :: "datetime \<Rightarrow> string list \<Rightarrow> fs \<Rightarrow> error + fs" where
  "unlink_missing_ok now p fs =
     (case os_unlink now p fs of
        Inl e \<Rightarrow> (if e = FileNotFoundError then Inr fs else Inl e)
      | Inr fs' \<Rightarrow> Inr fs')"

text \<open>
  \<open>Path.mkdir(parents=True, exist_ok=True)\<close>: the missing directories on the way are
  made, from the root down; a file in the way raises.
\<close>

fun mkdir_each :: "datetime \<Rightarrow> string list list \<Rightarrow> fs \<Rightarrow> error + fs" where
  "mkdir_each now [] fs = Inr fs"
| "mkdir_each now (q # qs) fs =
     (case map_of fs q of
        Some n \<Rightarrow>
          (if is_dir n then mkdir_each now qs fs
           else Inl (if qs = [] then FileExistsError else NotADirectoryError))
      | None \<Rightarrow>
          mkdir_each now qs
            (touch_parent now q (fs @ [(q, \<lparr> is_dir = True, mtime = now, data = [] \<rparr>)])))"

definition mkdir_parents :: "datetime \<Rightarrow> string list \<Rightarrow> fs \<Rightarrow> error + fs" where
  "mkdir_parents now p fs = mkdir_each now (prefixes p) fs"

text \<open>
  \<open>os.rename\<close>: the source and what is below it take the new path. An existing
  destination is replaced when it is a file and the source is one, or when both are
  directories and the destination is empty.
\<close>

definition move_entries :: "datetime \<Rightarrow> string list \<Rightarrow> string list \<Rightarrow> fs \<Rightarrow> fs" where
  "move_entries now src dst fs =
     touch_parent now dst
       (touch_parent now src
          (map (\<lambda>e. if prefix src (fst e) then (dst @ drop (length src) (fst e), snd e) else e) fs))"

definition os_rename :: "datetime \<Rightarrow> string list \<Rightarrow> string list \<Rightarrow> fs \<Rightarrow> error + fs" where
  "os_rename now src dst fs =
     (case map_of fs src of
        None \<Rightarrow> Inl FileNotFoundError
      | Some sn \<Rightarrow>
          if dst \<noteq> [] \<and> \<not> path_exists fs (butlast dst) then Inl FileNotFoundError
          else if dst \<noteq> [] \<and> \<not> path_is_dir fs (butlast dst) then Inl NotADirectoryError
          else if src = dst then Inr fs
          else if prefix src dst then Inl InvalidArgument
          else (case map_of fs dst of
                  None \<Rightarrow> Inr (move_entries now src dst fs)
                | Some dn \<Rightarrow>
                    if is_dir sn
                    then (if \<not> is_dir dn then Inl NotADirectoryError
                          else if has_entries fs dst then Inl DirectoryNotEmpty
                          else Inr (move_entries now src dst (filter (\<lambda>e. fst e \<noteq> dst) fs)))
                    else (if is_dir dn then Inl IsADirectoryError
                          else Inr (move_entries now src dst (filter (\<lambda>e. fst e \<noteq> dst) fs)))))"

text \<open>
  \<open>shutil.copytree\<close> (the destination must not exist; its missing parents are made) and
  \<open>shutil.copy2\<close>; both keep the modification times of what they copy.
\<close>

definition copytree :: "datetime \<Rightarrow> string list \<Rightarrow> string list \<Rightarrow> fs \<Rightarrow> error + fs" where
  "copytree now src dst fs =
     (if path_exists fs dst then Inl FileExistsError
      else (case mkdir_parents now (butlast dst) fs of
              Inl e \<Rightarrow> Inl e
            | Inr fs1 \<Rightarrow>
                Inr (touch_parent now dst
                       (fs1 @ map (\<lambda>e. (dst @ drop (length src) (fst e), snd e))
                                  (filter (\<lambda>e. prefix src (fst e)) fs1)))))"

definition copy2 :: "datetime \<Rightarrow> string list \<Rightarrow> string list \<Rightarrow> fs \<Rightarrow> error + fs" where
  "copy2 now src dst fs =
     (case map_of fs src of
        None \<Rightarrow> Inl FileNotFoundError
      | Some sn \<Rightarrow>
          if is_dir sn then Inl IsADirectoryError
          else if path_is_dir fs dst then Inl IsADirectoryError
          else if dst \<noteq> [] \<and> \<not> path_exists fs (butlast dst) then Inl FileNotFoundError
          else if dst \<noteq> [] \<and> \<not> path_is_dir fs (butlast dst) then Inl NotADirectoryError
          else Inr (touch_parent now dst (filter (\<lambda>e. fst e \<noteq> dst) fs @ [(dst, sn)])))"

text \<open>
  \<open>shutil.move(src, dst)\<close>: into \<open>dst\<close> when that is a directory (and then the name must
  be free there), else onto \<open>dst\<close>; by \<open>os.rename\<close>, and when that raises by copying and
  removing the source. A directory is not moved into itself.
\<close>

definition shutil_move :: "datetime \<Rightarrow> string list \<Rightarrow> string list \<Rightarrow> fs \<Rightarrow> error + fs" where
  "shutil_move now src dst fs =
     (let into = (path_is_dir fs dst \<and> src \<noteq> dst);
          real_dst = (if into \<and> src \<noteq> [] then dst @ [last src] else dst)
      in if into \<and> path_exists fs real_dst then Inl ShutilError
         else (case os_rename now src real_dst fs of
                 Inr fs' \<Rightarrow> Inr fs'
               | Inl e \<Rightarrow>
                   if path_is_dir fs src
                   then (if prefix src dst then Inl ShutilError
                         else (case copytree now src real_dst fs of
                                 Inl e' \<Rightarrow> Inl e'
                               | Inr fs1 \<Rightarrow> rmtree now src fs1))
                   else (case copy2 now src real_dst fs of
                           Inl e' \<Rightarrow> Inl e'
                         | Inr fs1 \<Rightarrow> os_unlink now src fs1)))"

section \<open>Disposal (\<open>_remove_path\<close>, \<open>_move_to_trash\<close>, \<open>_move_to_system_trash\<close>)\<close>

text \<open>
  What the service takes from its host: the wall clock, read by \<open>datetime.now()\<close> and by
  the file system when it stamps a change; the text \<open>strftime("%Y%m%d%H%M%S")\<close> gives for
  a whole second of the local time line; and the system trash directory (the override
  of the environment, else \<open>.Trash\<close> in the home directory). The state is the file
  system and the number of clock readings so far: reading \<open>k\<close> of the clock is
  \<open>clock host k\<close>, and every call that reads the clock or changes the file system
  takes one reading.
\<close>

record host =
  clock :: "nat \<Rightarrow> datetime"
  strftime :: "int \<Rightarrow> string"
  system_trash :: "string list"

type_synonym world = "fs \<times> nat"

definition remove_path :: "host \<Rightarrow> string list \<Rightarrow> world \<Rightarrow> error + world" where
  "remove_path h p w =
     (case w of (fs, k) \<Rightarrow>
        (case (if path_is_dir fs p then rmtree (clock h k) p fs
               else unlink_missing_ok (clock h k) p fs) of
           Inl e \<Rightarrow> Inl e
         | Inr fs' \<Rightarrow> Inr (fs', Suc k)))"

text \<open>
  \<open>base / rule.path.name / relative_path\<close>: the name of the root directory is empty and
  adds nothing; an absolute right operand would stand alone.
\<close>

definition trash_target :: "string list \<Rightarrow> FolderRule \<Rightarrow> ppath \<Rightarrow> string list" where
  "trash_target base rule relative_path =
     (if is_absolute relative_path then comps relative_path
      else base @ (if path rule = [] then [] else [last (path rule)]) @ comps relative_path)"

text \<open>\<open>target.with_name(f"{target.name}__{timestamp}")\<close>; a path without a name raises.\<close>

definition with_suffix_name :: "string list \<Rightarrow> string \<Rightarrow> error + string list" where
  "with_suffix_name target timestamp =
     (if target = [] then Inl ValueError
      else Inr (butlast target @ [last target @ ''__'' @ timestamp]))"

definition timestamp_text :: "host \<Rightarrow> datetime \<Rightarrow> string" where
  "timestamp_text h now = strftime h (now div 1000000)"

definition move_to_trash ::
  "host \<Rightarrow> string list option \<Rightarrow> FolderRule \<Rightarrow> string list \<Rightarrow> ppath \<Rightarrow> world
     \<Rightarrow> error + (string list \<times> world)" where
  "move_to_trash h trash_dir rule absolute_path relative_path w =
     (case trash_dir of
        None \<Rightarrow>
          (case remove_path h absolute_path w of
             Inl e \<Rightarrow> Inl e
           | Inr w' \<Rightarrow> Inr (absolute_path, w'))
      | Some trash \<Rightarrow>
          (case w of (fs, k) \<Rightarrow>
             (let target = trash_target trash rule relative_path
              in case mkdir_parents (clock h k) (butlast target) fs of
                   Inl e \<Rightarrow> Inl e
                 | Inr fs1 \<Rightarrow>
                     if path_exists fs1 target
                     then (case with_suffix_name target (timestamp_text h (clock h (k + 1))) of
                             Inl e \<Rightarrow> Inl e
                           | Inr renamed \<Rightarrow>
                               (case shutil_move (clock h (k + 2)) absolute_path renamed fs1 of
                                  Inl e \<Rightarrow> Inl e
                                | Inr fs2 \<Rightarrow> Inr (renamed, (fs2, k + 3))))
                     else (case shutil_move (clock h (k + 1)) absolute_path target fs1 of
                             Inl e \<Rightarrow> Inl e
                           | Inr fs2 \<Rightarrow> Inr (target, (fs2, k + 2))))))"

text \<open>
  \<open>_move_to_system_trash\<close>: when the move raises the entry is deleted instead. (A move
  that raises is taken to have changed nothing.)
\<close>

definition move_to_system_trash ::
  "host \<Rightarrow> FolderRule \<Rightarrow> string list \<Rightarrow> ppath \<Rightarrow> world \<Rightarrow> error + (string list \<times> world)" where
  "move_to_system_trash h rule absolute_path relative_path w =
     (case w of (fs, k) \<Rightarrow>
        (case mkdir_parents (clock h k) (system_trash h) fs of
           Inl e \<Rightarrow> Inl e
         | Inr fs1 \<Rightarrow>
             (let target = trash_target (system_trash h) rule relative_path
              in case mkdir_parents (clock h (k + 1)) (butlast target) fs1 of
                   Inl e \<Rightarrow> Inl e
                 | Inr fs2 \<Rightarrow>
                     (case shutil_move (clock h (k + 2)) absolute_path target fs2 of
                        Inr fs3 \<Rightarrow> Inr (target, (fs3, k + 3))
                      | Inl e \<Rightarrow>
                          (case remove_path h absolute_path (fs2, k + 3) of
                             Inl e' \<Rightarrow> Inl e'
                           | Inr w' \<Rightarrow> Inr (absolute_path, w'))))))"

section \<open>Cleanup (\<open>cleanup\<close>)\<close>

text \<open>The branch on the action: what is done with an entry that is due.\<close>

definition dispose ::
  "host \<Rightarrow> string list option \<Rightarrow> FolderRule \<Rightarrow> string \<Rightarrow> string list \<Rightarrow> ppath \<Rightarrow> world
     \<Rightarrow> error + (string list \<times> world)" where
  "dispose h trash_dir rule act absolute_path relative_path w =
     (if act = ''trash'' then move_to_trash h trash_dir rule absolute_path relative_path w
      else if act = ''system_trash'' then move_to_system_trash h rule absolute_path relative_path w
      else (case remove_path h absolute_path w of
              Inl e \<Rightarrow> Inl e
            | Inr w' \<Rightarrow> Inr (absolute_path, w')))"

text \<open>The loop over the sorted entries of one rule; \<open>removed\<close> is the list being built.\<close>

fun cleanup_entries ::
  "matcher \<Rightarrow> host \<Rightarrow> string list option \<Rightarrow> FolderRule \<Rightarrow> datetime
     \<Rightarrow> (string list \<times> ppath \<times> datetime) list \<Rightarrow> world \<times> string list list
     \<Rightarrow> error + (world \<times> string list list)" where
  "cleanup_entries rm h trash_dir rule as_of_dt [] acc = Inr acc"
| "cleanup_entries rm h trash_dir rule as_of_dt ((absolute_path, relative_path, modified_date) # rest) acc =
     (if is_exempt rule relative_path then cleanup_entries rm h trash_dir rule as_of_dt rest acc
      else if as_of_dt - modified_date \<ge> fst (effective_policy rm rule relative_path)
      then (case dispose h trash_dir rule (snd (effective_policy rm rule relative_path))
                   absolute_path relative_path (fst acc) of
              Inl e \<Rightarrow> Inl e
            | Inr (p, w') \<Rightarrow> cleanup_entries rm h trash_dir rule as_of_dt rest (w', snd acc @ [p]))
      else cleanup_entries rm h trash_dir rule as_of_dt rest acc)"

text \<open>
  \<open>entries.sort(key=lambda item: len(item[1].parts), reverse=True)\<close>: a stable sort, the
  longest relative paths first.
\<close>

definition sort_deepest_first ::
  "(string list \<times> ppath \<times> datetime) list \<Rightarrow> (string list \<times> ppath \<times> datetime) list" where
  "sort_deepest_first entries = sort_key (\<lambda>item. - int (length (parts (fst (snd item))))) entries"

fun cleanup_rules ::
  "matcher \<Rightarrow> host \<Rightarrow> string list option \<Rightarrow> datetime \<Rightarrow> FolderRule list
     \<Rightarrow> world \<times> string list list \<Rightarrow> error + (world \<times> string list list)" where
  "cleanup_rules rm h trash_dir as_of_dt [] acc = Inr acc"
| "cleanup_rules rm h trash_dir as_of_dt (rule # rest) acc =
     (if \<not> path_exists (fst (fst acc)) (path rule) \<or> \<not> path_is_dir (fst (fst acc)) (path rule)
      then cleanup_rules rm h trash_dir as_of_dt rest acc
      else (case collect_entries (fst (fst acc)) rule of
              Inl e \<Rightarrow> Inl e
            | Inr entries \<Rightarrow>
                (case cleanup_entries rm h trash_dir rule as_of_dt (sort_deepest_first entries) acc of
                   Inl e \<Rightarrow> Inl e
                 | Inr acc' \<Rightarrow> cleanup_rules rm h trash_dir as_of_dt rest acc')))"

text \<open>
  \<open>cleanup(as_of)\<close> of a service with the given rules and trash directory: the list it
  returns, and the state it leaves.
\<close>

definition cleanup ::
  "matcher \<Rightarrow> host \<Rightarrow> string list option \<Rightarrow> FolderRule list \<Rightarrow> as_of_arg \<Rightarrow> world
     \<Rightarrow> error + (string list list \<times> world)" where
  "cleanup rm h trash_dir rules as_of w =
     (case w of (fs, k) \<Rightarrow>
        (let as_of_dt = normalize_datetime (clock h k) as_of;
             k' = (if as_of = AsOfNone then Suc k else k)
         in case cleanup_rules rm h trash_dir as_of_dt rules ((fs, k'), []) of
              Inl e \<Rightarrow> Inl e
            | Inr (w', removed) \<Rightarrow> Inr (removed, w')))"


section \<open>Properties of double precision arithmetic\<close>

text \<open>
  Rounding to a double moves a value by at most one part in \<open>2 ^ 53\<close>, and leaves the
  integers below \<open>2 ^ 53\<close> where they are.
\<close>

lemma round_half_even_error: "\<bar>of_int (round_half_even x) - x\<bar> \<le> 1 / 2"
proof -
  have "of_int \<lfloor>x\<rfloor> \<le> x" "x < of_int \<lfloor>x\<rfloor> + 1"
    by linarith+
  then show ?thesis
    by (auto simp: round_half_even_def Let_def abs_le_iff)
qed

lemma round_half_even_of_int [simp]: "round_half_even (of_int k) = k"
  by (simp add: round_half_even_def)

lemma bitlen_powi:
  assumes "0 < a"
  shows "(2::rat) powi (bitlen a - 1) \<le> of_int a" "of_int a < (2::rat) powi (bitlen a)"
proof -
  from bitlen_bounds[OF assms] have b: "2 ^ nat (bitlen a - 1) \<le> a" "a < 2 ^ nat (bitlen a)"
    by simp_all
  have p: "1 \<le> bitlen a"
    using assms by (auto simp: bitlen_alt_def)
  have "(2::rat) powi (bitlen a - 1) = 2 ^ nat (bitlen a - 1)"
    using p by (simp add: power_int_def)
  also have "\<dots> = of_int (2 ^ nat (bitlen a - 1))"
    by simp
  also have "\<dots> \<le> of_int a"
    using b(1) by (simp only: of_int_le_iff)
  finally show "(2::rat) powi (bitlen a - 1) \<le> of_int a" .
  have "of_int a < (of_int (2 ^ nat (bitlen a)) :: rat)"
    using b(2) by (simp only: of_int_less_iff)
  also have "\<dots> = 2 powi (bitlen a)"
    using p by (simp add: power_int_def)
  finally show "of_int a < (2::rat) powi (bitlen a)" .
qed

lemma ilog2_bounds:
  assumes "0 < q"
  shows "2 powi (ilog2 q) \<le> q" "q < 2 powi (ilog2 q + 1)"
proof -
  obtain a b where ab: "quotient_of q = (a, b)" by (cases "quotient_of q")
  then have b: "0 < b" by (rule quotient_of_denom_pos)
  have q: "q = of_int a / of_int b" using ab by (rule quotient_of_div)
  with assms b have a: "0 < a"
    by (simp add: zero_less_divide_iff)
  let ?la = "bitlen a" and ?lb = "bitlen b"
  have B: "0 < (of_int b :: rat)" using b by simp
  have "q < 2 powi ?la / 2 powi (?lb - 1)"
  proof -
    have "of_int a / of_int b < 2 powi ?la / (of_int b :: rat)"
      using bitlen_powi(2)[OF a] B by (simp add: divide_strict_right_mono)
    also have "\<dots> \<le> 2 powi ?la / 2 powi (?lb - 1)"
      using bitlen_powi(1)[OF b] B by (intro divide_left_mono) (simp_all add: zero_less_power_int)
    finally show ?thesis by (simp add: q)
  qed
  then have up: "q < 2 powi (?la - ?lb + 1)"
    by (simp add: power_int_diff[symmetric] algebra_simps)
  have "2 powi (?la - 1) / 2 powi ?lb \<le> q"
  proof -
    have "2 powi (?la - 1) / 2 powi ?lb \<le> 2 powi (?la - 1) / (of_int b :: rat)"
      using bitlen_powi(2)[OF b] B by (intro divide_left_mono) simp_all
    also have "\<dots> \<le> of_int a / of_int b"
      using bitlen_powi(1)[OF a] B by (simp add: divide_right_mono)
    finally show ?thesis by (simp add: q)
  qed
  then have lo: "2 powi (?la - ?lb - 1) \<le> q"
    by (simp add: power_int_diff[symmetric] algebra_simps)
  have e: "ilog2 q = (if 2 powi (?la - ?lb) \<le> q then ?la - ?lb else ?la - ?lb - 1)"
    by (simp add: ilog2_def ab Let_def)
  show "2 powi (ilog2 q) \<le> q"
    using lo by (simp add: e)
  show "q < 2 powi (ilog2 q + 1)"
    using up by (auto simp: e not_le)
qed

lemma float_round_error: "\<bar>float_round q - q\<bar> \<le> \<bar>q\<bar> / 2 ^ 53"
proof (cases "q = 0")
  case True
  then show ?thesis by (simp add: float_round_def)
next
  case False
  let ?e = "ilog2 \<bar>q\<bar>"
  let ?u = "(2::rat) powi (?e - 52)"
  have u: "0 < ?u" by (simp add: zero_less_power_int)
  have fr: "float_round q = of_int (round_half_even (q / ?u)) * ?u"
    using False by (simp add: float_round_def Let_def)
  have "float_round q - q = (of_int (round_half_even (q / ?u)) - q / ?u) * ?u"
    using u by (simp add: fr algebra_simps)
  then have "\<bar>float_round q - q\<bar> = \<bar>of_int (round_half_even (q / ?u)) - q / ?u\<bar> * ?u"
    using u by (simp add: abs_mult)
  also have "\<dots> \<le> 1 / 2 * ?u"
    using round_half_even_error[of "q / ?u"] u by (intro mult_right_mono) simp_all
  also have "\<dots> = 2 powi ?e / 2 ^ 53"
    by (simp add: power_int_diff)
  also have "\<dots> \<le> \<bar>q\<bar> / 2 ^ 53"
    using ilog2_bounds(1)[of "\<bar>q\<bar>"] False by (simp add: divide_right_mono)
  finally show ?thesis .
qed

lemma float_round_of_int:
  assumes "\<bar>k\<bar> < 2 ^ 53"
  shows "float_round (of_int k) = of_int k"
proof (cases "k = 0")
  case True
  then show ?thesis by (simp add: float_round_def)
next
  case False
  let ?q = "of_int k :: rat"
  let ?e = "ilog2 \<bar>?q\<bar>"
  have pos: "0 < \<bar>?q\<bar>" using False by simp
  have "1 \<le> \<bar>k\<bar>" using False by simp
  then have "(of_int 1 :: rat) \<le> of_int \<bar>k\<bar>" by (simp only: of_int_le_iff)
  then have one: "1 \<le> \<bar>?q\<bar>" by simp
  have "(of_int \<bar>k\<bar> :: rat) < of_int (2 ^ 53)"
    using assms by (simp only: of_int_less_iff)
  then have "\<bar>?q\<bar> < 2 ^ 53" by simp
  with ilog2_bounds(1)[OF pos] have "(2::rat) powi ?e < 2 powi 53"
    by simp
  then have e52: "?e \<le> 52"
    using power_int_le_imp_less_exp[of "2::rat" ?e 53] by simp
  from one ilog2_bounds(2)[OF pos] have "(2::rat) powi 0 < 2 powi (?e + 1)"
    by simp
  have e0: "0 \<le> ?e"
  proof (rule ccontr)
    assume "\<not> 0 \<le> ?e"
    then have "?e + 1 \<le> 0" by simp
    then have "(2::rat) powi (?e + 1) \<le> 2 powi 0"
      by (intro power_int_increasing) simp_all
    with \<open>(2::rat) powi 0 < 2 powi (?e + 1)\<close> show False by simp
  qed
  let ?u = "(2::rat) powi (?e - 52)"
  have u: "?u = 1 / of_int (2 ^ nat (52 - ?e))"
    using e52 by (simp add: power_int_def field_simps)
  then have "?q / ?u = of_int (k * 2 ^ nat (52 - ?e))"
    by simp
  then have "round_half_even (?q / ?u) = k * 2 ^ nat (52 - ?e)"
    by (simp only: round_half_even_of_int)
  then have "of_int (round_half_even (?q / ?u)) * ?u = ?q"
    by (simp add: u)
  then show ?thesis
    using False by (simp add: float_round_def Let_def)
qed

lemma float_round_nonneg: "0 \<le> q \<Longrightarrow> 0 \<le> float_round q"
proof -
  assume q: "0 \<le> q"
  have "\<bar>float_round q - q\<bar> \<le> \<bar>q\<bar> / 2 ^ 53"
    by (rule float_round_error)
  moreover have "\<bar>q\<bar> / 2 ^ 53 \<le> \<bar>q\<bar> / 1"
    by (rule divide_left_mono) simp_all
  ultimately show ?thesis
    using q by (simp only: div_by_1)
qed

text \<open>
  The day count \<open>math.ceil(td.total_seconds() / 86400)\<close> is the exact ceiling for a
  difference of more than minus one day and less than 50000 days.
\<close>

lemma float_days_close:
  fixes x :: rat
  shows "\<bar>float_round (float_round (x * 86400) / 86400) - x\<bar>
           \<le> \<bar>x\<bar> * (2 / 2 ^ 53 + 1 / (2 ^ 53 * 2 ^ 53))"
proof -
  let ?s = "float_round (x * 86400)"
  let ?y = "?s / 86400"
  let ?d = "float_round ?y"
  have "\<bar>?s - x * 86400\<bar> \<le> \<bar>x * 86400\<bar> / 2 ^ 53"
    by (rule float_round_error)
  then have "\<bar>?s - x * 86400\<bar> / 86400 \<le> (\<bar>x * 86400\<bar> / 2 ^ 53) / 86400"
    by (rule divide_right_mono) simp
  moreover have "?y - x = (?s - x * 86400) / 86400"
    by (simp add: diff_divide_distrib)
  then have "\<bar>?s - x * 86400\<bar> / 86400 = \<bar>?y - x\<bar>"
    by (simp only: abs_divide)
  moreover have "(\<bar>x * 86400\<bar> / 2 ^ 53) / 86400 = \<bar>x\<bar> / 2 ^ 53"
    by (simp add: abs_mult)
  ultimately have yx: "\<bar>?y - x\<bar> \<le> \<bar>x\<bar> / 2 ^ 53"
    by simp
  then have y: "\<bar>?y\<bar> \<le> \<bar>x\<bar> + \<bar>x\<bar> / 2 ^ 53"
    by linarith
  have "\<bar>?d - ?y\<bar> \<le> \<bar>?y\<bar> / 2 ^ 53"
    by (rule float_round_error)
  also have "\<dots> \<le> (\<bar>x\<bar> + \<bar>x\<bar> / 2 ^ 53) / 2 ^ 53"
    using y by (rule divide_right_mono) simp
  finally have dy: "\<bar>?d - ?y\<bar> \<le> (\<bar>x\<bar> + \<bar>x\<bar> / 2 ^ 53) / 2 ^ 53" .
  have "\<bar>?d - x\<bar> \<le> \<bar>?d - ?y\<bar> + \<bar>?y - x\<bar>"
    by linarith
  also have "\<dots> \<le> (\<bar>x\<bar> + \<bar>x\<bar> / 2 ^ 53) / 2 ^ 53 + \<bar>x\<bar> / 2 ^ 53"
    using dy yx by linarith
  also have "\<dots> = \<bar>x\<bar> * (2 / 2 ^ 53 + 1 / (2 ^ 53 * 2 ^ 53))"
    by (simp add: field_simps)
  finally show ?thesis .
qed

lemma float_days_exact:
  assumes lo: "- 86400000000 < n" and hi: "n < 50000 * 86400000000"
  shows "\<lceil>float_round (float_round (of_int n / 1000000) / 86400)\<rceil>
           = \<lceil>(of_int n :: rat) / 86400000000\<rceil>"
proof (cases "86400000000 dvd n")
  case True
  then obtain k where k: "n = 86400000000 * k" ..
  with lo hi have kb: "0 \<le> k" "k < 50000" by simp_all
  have t: "(of_int n :: rat) / 1000000 = of_int (k * 86400)"
    by (simp add: k)
  have "\<bar>k * 86400\<bar> < 2 ^ 53" using kb by simp
  then have s: "float_round (of_int (k * 86400)) = of_int (k * 86400)"
    by (rule float_round_of_int)
  have "\<bar>k\<bar> < 2 ^ 53" using kb by simp
  then have d: "float_round (of_int k) = of_int k"
    by (rule float_round_of_int)
  have "(of_int (k * 86400) :: rat) / 86400 = of_int k"
    by simp
  then have "float_round (float_round (of_int n / 1000000) / 86400) = of_int k"
    by (simp only: t s d)
  moreover have "(of_int n :: rat) / 86400000000 = of_int k"
    by (simp add: k)
  ultimately show ?thesis by simp
next
  case False
  let ?x = "(of_int n :: rat) / 86400000000"
  let ?c = "\<lceil>?x\<rceil>"
  let ?d = "float_round (float_round (of_int n / 1000000) / 86400)"
  have t: "(of_int n :: rat) / 1000000 = ?x * 86400"
    by simp
  have "(of_int n :: rat) / 86400000000 \<le> of_int ?c"
    by (rule le_of_int_ceiling)
  then have "(of_int n :: rat) \<le> of_int ?c * 86400000000"
    by (subst (asm) pos_divide_le_eq) simp_all
  then have "(of_int n :: rat) \<le> of_int (?c * 86400000000)"
    by simp
  then have u1: "n \<le> ?c * 86400000000"
    by (simp only: of_int_le_iff)
  have "of_int ?c - 1 < (of_int n :: rat) / 86400000000"
    using ceiling_correct[of "(of_int n :: rat) / 86400000000"] by (rule conjunct1)
  then have "(of_int ?c - 1) * 86400000000 < (of_int n :: rat)"
    by (subst (asm) pos_less_divide_eq) simp_all
  then have "(of_int ((?c - 1) * 86400000000) :: rat) < of_int n"
    by simp
  then have u2: "(?c - 1) * 86400000000 < n"
    by (simp only: of_int_less_iff)
  note u1 u2
  moreover have "n \<noteq> ?c * 86400000000"
  proof
    assume "n = ?c * 86400000000"
    then have "86400000000 dvd n"
      by (metis dvd_triv_right)
    with False show False by simp
  qed
  ultimately have "n \<le> ?c * 86400000000 - 1" "(?c - 1) * 86400000000 + 1 \<le> n"
    by linarith+
  then have "(of_int n :: rat) \<le> of_int (?c * 86400000000 - 1)"
            "(of_int ((?c - 1) * 86400000000 + 1) :: rat) \<le> of_int n"
    by (simp_all only: of_int_le_iff)
  then have xc: "?x \<le> of_int ?c - 1 / 86400000000" "of_int ?c - 1 + 1 / 86400000000 \<le> ?x"
    by (simp_all add: field_simps)
  have "(of_int (- 86400000000) :: rat) < of_int n" "(of_int n :: rat) < of_int (50000 * 86400000000)"
    using lo hi by (simp_all only: of_int_less_iff)
  then have "- 1 < ?x" "?x < 50000"
    by simp_all
  then have ax: "\<bar>?x\<bar> < 50000" by linarith
  have "\<bar>?d - ?x\<bar> \<le> \<bar>?x\<bar> * (2 / 2 ^ 53 + 1 / (2 ^ 53 * 2 ^ 53))"
    unfolding t by (rule float_days_close)
  also have "\<dots> \<le> 50000 * (2 / 2 ^ 53 + 1 / (2 ^ 53 * 2 ^ 53))"
    using ax by (intro mult_right_mono) simp_all
  also have "\<dots> < 1 / 86400000000"
    by simp
  finally have "\<bar>?d - ?x\<bar> < 1 / 86400000000" .
  with xc have "of_int ?c - 1 < ?d" "?d \<le> of_int ?c"
    by linarith+
  then show "\<lceil>?d\<rceil> = ?c"
    by (intro ceiling_unique) simp_all
qed

section \<open>Properties of duration parsing\<close>

lemma parse_text_neither:
  "normalised_matches_neither s \<Longrightarrow> parse_text s = Inl ValueError"
  by (simp add: normalised_matches_neither_def matches_neither_def parse_text_def Let_def)

text \<open>
  C3 (amended). \<open>_parse_offset\<close> raises ValueError for every negative timedelta, int
  or float, for every bool, for every value of another type, and for every string whose
  stripped, lower-cased text matches neither \<open>^\d+[hdwy]$\<close> nor \<open>^\d+$\<close>;
  \<open>_parse_duration\<close> raises for every such string and every value of another type.
\<close>

theorem parsers_reject_invalid:
  "(td < 0 \<longrightarrow> parse_offset (PyTimedelta td) = Inl ValueError)
   \<and> (n < 0 \<longrightarrow> parse_offset (PyInt n) = Inl ValueError)
   \<and> (x < 0 \<longrightarrow> parse_offset (PyFloat (Finite x)) = Inl ValueError)
   \<and> parse_offset (PyFloat NegInf) = Inl ValueError
   \<and> parse_offset (PyBool b) = Inl ValueError
   \<and> parse_offset PyOther = Inl ValueError
   \<and> parse_duration PyOther = Inl ValueError
   \<and> (normalised_matches_neither s \<longrightarrow>
        parse_offset (PyStr s) = Inl ValueError \<and> parse_duration (PyStr s) = Inl ValueError)"
  by (simp add: parse_text_neither)

theorem parsers_reject_invalid_witness:
  "parse_offset (PyTimedelta (- 1)) = Inl ValueError
   \<and> parse_offset (PyInt (- 3)) = Inl ValueError
   \<and> parse_offset (PyFloat (Finite (- 1 / 2))) = Inl ValueError
   \<and> parse_offset (PyFloat NegInf) = Inl ValueError
   \<and> parse_offset (PyBool True) = Inl ValueError
   \<and> parse_offset PyOther = Inl ValueError
   \<and> parse_duration PyOther = Inl ValueError
   \<and> normalised_matches_neither ''12x''
   \<and> parse_offset (PyStr ''12x'') = Inl ValueError
   \<and> parse_duration (PyStr ''12x'') = Inl ValueError"
proof -
  have h: "normalised_matches_neither ''12x''"
    by code_simp
  from parsers_reject_invalid [of "- 1" "- 3" "- 1 / 2" True "''12x''"] h
  show ?thesis by simp
qed

text \<open>
  C3, as stated, fails: a string that matches neither pattern as it stands is accepted
  by both parsers when stripping and lower-casing make it match.
\<close>

theorem unnormalised_string_accepted:
  "matches_neither '' 5D''
   \<and> parse_offset (PyStr '' 5D'') = Inr (days 5)
   \<and> parse_duration (PyStr '' 5D'') = Inr (days 5)"
  by code_simp

text \<open>
  So is a string with a no-break space (code point 160) before the digits, which
  \<open>strip\<close> removes.
\<close>

lemma no_break_space_stripped:
  "parse_offset (PyStr (char_of (160 :: nat) # ''5d'')) = Inr (days 5)
   \<and> parse_duration (PyStr (char_of (133 :: nat) # ''5d'')) = Inr (days 5)"
  by code_simp

text \<open>
  \<open>_parse_duration\<close> has neither the check on bool nor the check on sign that
  \<open>_parse_offset\<close> has: \<open>True\<close> is taken as one day and a negative number is
  converted.
\<close>

lemma parse_duration_accepts_bool_and_negative:
  "parse_duration (PyBool True) = Inr (days 1) \<and> parse_duration (PyInt (- 3)) = Inr (days (- 3))"
  by code_simp

text \<open>Parsing \<open>5d\<close> gives 5 times 86400 seconds, \<open>12h\<close> gives 12 times 3600 seconds.\<close>

lemma parse_round_trip:
  "parse_offset (PyStr ''5d'') = Inr (5 * 86400 * 1000000)
   \<and> parse_offset (PyStr ''12h'') = Inr (12 * 3600 * 1000000)"
  by code_simp

text \<open>
  A float of days is converted in double arithmetic: the product of the fractional part
  and the microseconds of a day is rounded to a double before it is rounded to a
  microsecond.
\<close>

lemma float_days_rounded_twice:
  "parse_duration (PyFloat (Finite (float_round (8779363277378472 / 1000000000000000))))
     = Inr 758536987166"
  by code_simp


section \<open>Properties of policy resolution\<close>

lemma policy_loop_find:
  "policy_loop rm ps rule rel =
     (case find (\<lambda>p. rm (pattern p) (name rel)) ps of
        None \<Rightarrow> (FolderRule.retention rule, FolderRule.action rule)
      | Some p \<Rightarrow> (PatternRule.retention p, PatternRule.action p))"
  by (induction ps) auto

lemma notify_loop_find:
  "notify_loop rm ps rule rel =
     (case find (\<lambda>p. rm (pattern p) (name rel)) ps of
        None \<Rightarrow> FolderRule.notify_before rule
      | Some p \<Rightarrow> PatternRule.notify_before p)"
  by (induction ps) auto

text \<open>
  C2. The effective retention, action and notify-before set of an entry are those of the
  first pattern rule, in declared order, that \<open>re.match\<close> accepts for the entry's base
  name; when no pattern matches they are the folder rule's own. A matching pattern's
  notify-before set is returned as it is: the folder rule's lead-times are not merged in.
\<close>

theorem first_matching_pattern_decides:
  "(\<exists>i < length (patterns rule).
        rm (pattern (patterns rule ! i)) (name rel)
      \<and> (\<forall>j < i. \<not> rm (pattern (patterns rule ! j)) (name rel))
      \<and> effective_policy rm rule rel =
          (PatternRule.retention (patterns rule ! i), PatternRule.action (patterns rule ! i))
      \<and> effective_notify rm rule rel = PatternRule.notify_before (patterns rule ! i))
   \<or> ((\<forall>p \<in> set (patterns rule). \<not> rm (pattern p) (name rel))
      \<and> effective_policy rm rule rel = (FolderRule.retention rule, FolderRule.action rule)
      \<and> effective_notify rm rule rel = FolderRule.notify_before rule)"
proof (cases "find (\<lambda>p. rm (pattern p) (name rel)) (patterns rule)")
  case None
  then have "\<forall>p \<in> set (patterns rule). \<not> rm (pattern p) (name rel)"
    by (simp add: find_None_iff)
  with None show ?thesis
    by (simp add: effective_policy_def effective_notify_def policy_loop_find notify_loop_find)
next
  case (Some p)
  then obtain i where i: "i < length (patterns rule)" "rm (pattern (patterns rule ! i)) (name rel)"
      "p = patterns rule ! i" "\<forall>j < i. \<not> rm (pattern (patterns rule ! j)) (name rel)"
    unfolding find_Some_iff by blast
  have "effective_policy rm rule rel = (PatternRule.retention p, PatternRule.action p)"
       "effective_notify rm rule rel = PatternRule.notify_before p"
    using Some by (simp_all add: effective_policy_def effective_notify_def policy_loop_find notify_loop_find)
  with i show ?thesis by blast
qed

text \<open>
  The pattern precedence example of the specification: folder retention 10 days, a
  pattern \<open>^ScreenShot\<close> with retention 1 day.
\<close>

definition screenshot_rule :: FolderRule where
  "screenshot_rule =
     \<lparr> path = [''home'', ''shots''], retention = days 10, notify_before = [days 3],
       exemptions = [], action = ''trash'',
       patterns = [\<lparr> pattern = ''^ScreenShot'', retention = days 1, notify_before = [0],
                    action = ''delete'' \<rparr>] \<rparr>"

theorem first_matching_pattern_decides_witness:
  "effective_policy literal_match screenshot_rule (Path ''ScreenShot_1.png'') = (days 1, ''delete'')
   \<and> effective_notify literal_match screenshot_rule (Path ''ScreenShot_1.png'') = [0]
   \<and> effective_policy literal_match screenshot_rule (Path ''generic.txt'') = (days 10, ''trash'')
   \<and> effective_notify literal_match screenshot_rule (Path ''generic.txt'') = [days 3]"
proof -
  have m: "literal_match ''^ScreenShot'' (name (Path ''ScreenShot_1.png''))"
          "\<not> literal_match ''^ScreenShot'' (name (Path ''generic.txt''))"
    by code_simp+
  have p: "patterns screenshot_rule = [\<lparr> pattern = ''^ScreenShot'', retention = days 1, notify_before = [0],
                    action = ''delete'' \<rparr>]" 
     "FolderRule.retention screenshot_rule = days 10" "FolderRule.action screenshot_rule = ''trash''"
     "FolderRule.notify_before screenshot_rule = [days 3]"
    by (simp_all add: screenshot_rule_def)
  from first_matching_pattern_decides [of screenshot_rule literal_match "Path ''ScreenShot_1.png''"]
       first_matching_pattern_decides [of screenshot_rule literal_match "Path ''generic.txt''"] m
  show ?thesis
    by (simp add: p)
qed


section \<open>Properties of the traversal\<close>


lemma all_or_error_Inr:
  "all_or_error xs = Inr ys \<Longrightarrow> xs = map Inr ys"
  by (induction xs arbitrary: ys) (auto split: sum.splits)

lemma all_or_error_map_Inr [simp]: "all_or_error (map Inr ys) = Inr ys"
  by (induction ys) auto

lemma os_walk_prefix:
  "(r, ds, ns) \<in> set (os_walk fs top_dir) \<Longrightarrow> prefix top_dir r"
proof (induction fs top_dir rule: os_walk.induct)
  case (1 fs top_dir)
  from "1.prems" show ?case
    apply (subst (asm) os_walk.simps)
    apply (auto split: if_splits)
    apply (drule "1.IH"[rotated 2])
      apply (auto dest: append_prefixD)
    done
qed

lemma scandir_key: "n \<in> set (scandir fs top_dir) \<Longrightarrow> top_dir @ [n] \<in> fst ` set fs"
  unfolding scandir_def by (auto simp: image_iff) (metis append_butlast_last_id fst_conv)

lemma os_walk_names:
  "(r, ds, ns) \<in> set (os_walk fs top_dir) \<Longrightarrow> n \<in> set ds \<union> set ns \<Longrightarrow> r @ [n] \<in> fst ` set fs"
proof (induction fs top_dir rule: os_walk.induct)
  case (1 fs top_dir)
  from "1.prems" show ?case
    apply (subst (asm) os_walk.simps)
    apply (auto split: if_splits dest: scandir_key)
    apply (drule "1.IH"[rotated 2])
      apply (auto dest: scandir_key)
    apply (drule "1.IH"[rotated 2])
      apply (auto dest: scandir_key)
    done
qed


text \<open>
  The entries a traversal yields, without the error wrapper: \<open>relative_to\<close> never
  raises on a path of the walk, and every path of the walk is in the table.
\<close>

definition entries_of :: "fs \<Rightarrow> FolderRule \<Rightarrow> (string list \<times> ppath) list" where
  "entries_of fs rule =
     concat (map (\<lambda>(root_path, dirs, nondirs).
                    map (\<lambda>n. (root_path @ [n],
                               \<lparr> anchor = [], comps = drop (length (path rule)) (root_path @ [n]) \<rparr>))
                        (nondirs @ dirs))
                 (os_walk fs (path rule)))"

lemma entry_Inr:
  "prefix base r \<Longrightarrow>
   entry base r n = Inr (r @ [n], \<lparr> anchor = [], comps = drop (length base) (r @ [n]) \<rparr>)"
  by (auto simp: entry_def relative_to_def Let_def prefix_def)

lemma concat_map_Inr:
  "(\<And>w. w \<in> set ws \<Longrightarrow> F w = map Inr (G w)) \<Longrightarrow>
   concat (map F ws) = map Inr (concat (map G ws))"
  by (induction ws) auto

lemma iter_rule_entries_total: "iter_rule_entries fs rule = Inr (entries_of fs rule)"
proof -
  have "concat (map (\<lambda>(root_path, dirs, nondirs).
                       map (entry (path rule) root_path) nondirs
                       @ map (entry (path rule) root_path) dirs)
                    (os_walk fs (path rule)))
        = map Inr (concat (map (\<lambda>(root_path, dirs, nondirs).
                    map (\<lambda>n. (root_path @ [n],
                               \<lparr> anchor = [], comps = drop (length (path rule)) (root_path @ [n]) \<rparr>))
                        (nondirs @ dirs))
                 (os_walk fs (path rule))))"
  proof (rule concat_map_Inr)
    fix w assume w: "w \<in> set (os_walk fs (path rule))"
    obtain r ds ns where [simp]: "w = (r, ds, ns)" by (cases w)
    from w have "prefix (path rule) r" by (auto dest: os_walk_prefix)
    then show "(case w of (root_path, dirs, nondirs) \<Rightarrow>
                       map (entry (path rule) root_path) nondirs
                       @ map (entry (path rule) root_path) dirs)
       = map Inr (case w of (root_path, dirs, nondirs) \<Rightarrow>
                    map (\<lambda>n. (root_path @ [n],
                               \<lparr> anchor = [], comps = drop (length (path rule)) (root_path @ [n]) \<rparr>))
                        (nondirs @ dirs))"
      by (simp add: entry_Inr del: drop_append)
  qed
  then show ?thesis
    by (simp add: iter_rule_entries_def entries_of_def)
qed

lemma entries_of_key: "(a, r) \<in> set (entries_of fs rule) \<Longrightarrow> a \<in> fst ` set fs"
  unfolding entries_of_def by (auto dest: os_walk_names)

lemma entries_of_relative:
  "(a, r) \<in> set (entries_of fs rule) \<Longrightarrow>
     anchor r = [] \<and> a = path rule @ comps r \<and> comps r \<noteq> []"
  unfolding entries_of_def
  by (auto dest!: os_walk_prefix simp: prefix_def)


lemma all_or_error_total:
  "\<forall>x \<in> set xs. \<exists>v. f x = Inr v \<Longrightarrow> \<exists>vs. all_or_error (map f xs) = Inr vs"
  by (induction xs) (auto split: sum.splits)


section \<open>Properties of alert scheduling\<close>

lemma date_of_mono: "a \<le> b \<Longrightarrow> date_of a \<le> date_of b"
  unfolding date_of_def usec_per_day_def by (rule zdiv_mono1) simp_all

lemma date_of_plus_days: "date_of (m + days k) = date_of m + k"
  unfolding date_of_def days_def usec_per_day_def by simp

lemma window_end_Inr: "window_end d w = Inr e \<Longrightarrow> e = d + w"
  by (auto simp: window_end_def timedelta_int_days_def new_timedelta_def date_plus_def
        usec_per_day_def split: sum.splits if_splits)

lemma offsets_loop_Inr:
  "offsets_loop offs due_dt as_of_date end_date rp rel = Inr regs \<Longrightarrow>
     regs = map (\<lambda>L. (date_of (due_dt - L), rp, rel, date_of due_dt))
              (filter (\<lambda>L. as_of_date \<le> date_of (due_dt - L) \<and> date_of (due_dt - L) \<le> end_date)
                      offs)"
proof (induction offs arbitrary: regs)
  case Nil
  then show ?case by simp
next
  case (Cons L offs)
  from Cons.prems obtain rest where
      m: "datetime_minus due_dt L = Inr (due_dt - L)"
    and r: "offsets_loop offs due_dt as_of_date end_date rp rel = Inr rest"
    and e: "regs = (if date_of (due_dt - L) < as_of_date \<or> date_of (due_dt - L) > end_date
                    then rest
                    else (date_of (due_dt - L), rp, rel, date_of due_dt) # rest)"
    by (auto simp: datetime_minus_def split: sum.splits if_splits)
  from Cons.IH[OF r] e show ?case
    by auto
qed

text \<open>
  What one entry registers, when the loop body does not raise: nothing when it is
  exempt or its due instant is before \<open>as_of\<close>; else one registration for each
  lead-time whose alert date is in the window.
\<close>

lemma entry_registrations_mem:
  assumes "entry_registrations rm fs rule as_of_dt end_date (a, rel) = Inr regs"
  shows "(d, f, r, due) \<in> set regs \<longleftrightarrow>
           f = path rule \<and> r = rel \<and> \<not> is_exempt rule rel
           \<and> (\<exists>m L. modified_datetime fs a = Inr m
                 \<and> \<not> m + fst (effective_policy rm rule rel) < as_of_dt
                 \<and> L \<in> set (effective_notify rm rule rel)
                 \<and> due = date_of (m + fst (effective_policy rm rule rel))
                 \<and> d = date_of (m + fst (effective_policy rm rule rel) - L)
                 \<and> date_of as_of_dt \<le> d \<and> d \<le> end_date)"
proof (cases "is_exempt rule rel")
  case True
  with assms show ?thesis
    by (simp add: entry_registrations_def)
next
  case False
  with assms obtain m where m: "modified_datetime fs a = Inr m"
    by (auto simp: entry_registrations_def split: sum.splits)
  let ?due = "m + fst (effective_policy rm rule rel)"
  from assms False m have p: "datetime_plus m (fst (effective_policy rm rule rel)) = Inr ?due"
    by (auto simp: entry_registrations_def datetime_plus_def split: sum.splits if_splits)
  show ?thesis
  proof (cases "?due < as_of_dt")
    case True
    with assms False m p show ?thesis
      by (simp add: entry_registrations_def)
  next
    case nd: False
    with assms False m p have
      "offsets_loop (effective_notify rm rule rel) ?due (date_of as_of_dt) end_date (path rule) rel
         = Inr regs"
      by (simp add: entry_registrations_def)
    then have "regs = map (\<lambda>L. (date_of (?due - L), path rule, rel, date_of ?due))
              (filter (\<lambda>L. date_of as_of_dt \<le> date_of (?due - L) \<and> date_of (?due - L) \<le> end_date)
                      (effective_notify rm rule rel))"
      by (rule offsets_loop_Inr)
    with False m nd show ?thesis
      by auto
  qed
qed

lemma all_or_error_mem:
  "all_or_error (map f xs) = Inr vs \<Longrightarrow> v \<in> set vs \<Longrightarrow> \<exists>x \<in> set xs. f x = Inr v"
  by (induction xs arbitrary: vs) (auto split: sum.splits)

lemma all_or_error_mem2:
  "all_or_error (map f xs) = Inr vs \<Longrightarrow> x \<in> set xs \<Longrightarrow> \<exists>v \<in> set vs. f x = Inr v"
  by (induction xs arbitrary: vs) (auto split: sum.splits)

text \<open>The condition under which an entry of a rule is registered for a date.\<close>

definition registered ::
  "matcher \<Rightarrow> fs \<Rightarrow> datetime \<Rightarrow> date \<Rightarrow> FolderRule \<Rightarrow> string list \<Rightarrow> ppath \<Rightarrow> date \<Rightarrow> date \<Rightarrow> bool" where
  "registered rm fs as_of_dt end_date rule a rel d due =
     (\<not> is_exempt rule rel
      \<and> (\<exists>m L. modified_datetime fs a = Inr m
            \<and> \<not> m + fst (effective_policy rm rule rel) < as_of_dt
            \<and> L \<in> set (effective_notify rm rule rel)
            \<and> due = date_of (m + fst (effective_policy rm rule rel))
            \<and> d = date_of (m + fst (effective_policy rm rule rel) - L)
            \<and> date_of as_of_dt \<le> d \<and> d \<le> end_date))"

lemma rule_registrations_mem:
  assumes "rule_registrations rm fs as_of_dt end_date rule = Inr regs"
  shows "(d, f, rel, due) \<in> set regs \<longleftrightarrow>
           f = path rule \<and> path_exists fs (path rule) \<and> path_is_dir fs (path rule)
           \<and> (\<exists>a. (a, rel) \<in> set (entries_of fs rule)
                  \<and> registered rm fs as_of_dt end_date rule a rel d due)"
proof (cases "\<not> path_exists fs (path rule) \<or> \<not> path_is_dir fs (path rule)")
  case True
  with assms have "regs = []" by (simp add: rule_registrations_def)
  with True show ?thesis by auto
next
  case False
  with assms obtain rss where rss:
     "all_or_error (map (entry_registrations rm fs rule as_of_dt end_date) (entries_of fs rule)) = Inr rss"
     "regs = concat rss"
    by (auto simp: rule_registrations_def iter_rule_entries_total split: sum.splits)
  show ?thesis
  proof
    assume "(d, f, rel, due) \<in> set regs"
    with rss obtain rs where rs: "rs \<in> set rss" "(d, f, rel, due) \<in> set rs" by auto
    with rss(1) obtain e where e: "e \<in> set (entries_of fs rule)"
        "entry_registrations rm fs rule as_of_dt end_date e = Inr rs"
      by (blast dest: all_or_error_mem)
    obtain a r where ar: "e = (a, r)" by (cases e)
    from entry_registrations_mem[OF e(2)[unfolded ar], of d f rel due] rs(2)
    have "f = path rule" "rel = r" "registered rm fs as_of_dt end_date rule a r d due"
      by (simp_all add: registered_def)
    with e(1) ar False show "f = path rule \<and> path_exists fs (path rule) \<and> path_is_dir fs (path rule)
           \<and> (\<exists>a. (a, rel) \<in> set (entries_of fs rule)
                  \<and> registered rm fs as_of_dt end_date rule a rel d due)"
      by auto
  next
    assume h: "f = path rule \<and> path_exists fs (path rule) \<and> path_is_dir fs (path rule)
           \<and> (\<exists>a. (a, rel) \<in> set (entries_of fs rule)
                  \<and> registered rm fs as_of_dt end_date rule a rel d due)"
    then obtain a where a: "(a, rel) \<in> set (entries_of fs rule)"
        "registered rm fs as_of_dt end_date rule a rel d due"
      by blast
    from rss(1) a(1) obtain rs where rs: "rs \<in> set rss"
        "entry_registrations rm fs rule as_of_dt end_date (a, rel) = Inr rs"
      by (blast dest: all_or_error_mem2)
    from entry_registrations_mem[OF rs(2), of d f rel due] a(2) h
    have "(d, f, rel, due) \<in> set rs"
      by (simp add: registered_def)
    with rs(1) rss(2) show "(d, f, rel, due) \<in> set regs" by auto
  qed
qed

lemma registrations_mem:
  assumes "registrations rm fs rules as_of_dt end_date = Inr regs"
  shows "(d, f, rel, due) \<in> set regs \<longleftrightarrow>
           (\<exists>rule a. rule \<in> set rules \<and> path rule = f
              \<and> path_exists fs f \<and> path_is_dir fs f
              \<and> (a, rel) \<in> set (entries_of fs rule)
              \<and> registered rm fs as_of_dt end_date rule a rel d due)"
proof -
  from assms obtain rss where rss:
     "all_or_error (map (rule_registrations rm fs as_of_dt end_date) rules) = Inr rss"
     "regs = concat rss"
    by (auto simp: registrations_def split: sum.splits)
  show ?thesis
  proof
    assume "(d, f, rel, due) \<in> set regs"
    with rss obtain rs where rs: "rs \<in> set rss" "(d, f, rel, due) \<in> set rs" by auto
    with rss(1) obtain rule where rule: "rule \<in> set rules"
        "rule_registrations rm fs as_of_dt end_date rule = Inr rs"
      by (blast dest: all_or_error_mem)
    from rule_registrations_mem[OF rule(2), of d f rel due] rs(2) rule(1)
    show "\<exists>rule a. rule \<in> set rules \<and> path rule = f
              \<and> path_exists fs f \<and> path_is_dir fs f
              \<and> (a, rel) \<in> set (entries_of fs rule)
              \<and> registered rm fs as_of_dt end_date rule a rel d due"
      by auto
  next
    assume "\<exists>rule a. rule \<in> set rules \<and> path rule = f
              \<and> path_exists fs f \<and> path_is_dir fs f
              \<and> (a, rel) \<in> set (entries_of fs rule)
              \<and> registered rm fs as_of_dt end_date rule a rel d due"
    then obtain rule a where h: "rule \<in> set rules" "path rule = f"
        "path_exists fs f" "path_is_dir fs f" "(a, rel) \<in> set (entries_of fs rule)"
        "registered rm fs as_of_dt end_date rule a rel d due"
      by blast
    from rss(1) h(1) obtain rs where rs: "rs \<in> set rss"
        "rule_registrations rm fs as_of_dt end_date rule = Inr rs"
      by (blast dest: all_or_error_mem2)
    from rule_registrations_mem[OF rs(2), of d f rel due] h
    have "(d, f, rel, due) \<in> set rs"
      by auto
    with rs(1) rss(2) show "(d, f, rel, due) \<in> set regs" by auto
  qed
qed

lemma registrations_due:
  assumes "registrations rm fs rules as_of_dt end_date = Inr regs" "x \<in> set regs"
  shows "date_of as_of_dt \<le> snd (snd (snd x))"
proof -
  obtain d f rel due where x: "x = (d, f, rel, due)" by (cases x)
  from registrations_mem[OF assms(1), of d f rel due] assms(2) x
  obtain rule a where "registered rm fs as_of_dt end_date rule a rel d due"
    by auto
  then obtain m where "\<not> m + fst (effective_policy rm rule rel) < as_of_dt"
      "due = date_of (m + fst (effective_policy rm rule rel))"
    by (auto simp: registered_def)
  then have "date_of as_of_dt \<le> due"
    by (simp add: date_of_mono)
  with x show ?thesis by simp
qed

text \<open>
  The first instant of a due date that is not before the date of \<open>as_of\<close> is less than
  a day before \<open>as_of\<close>, so the day count is not negative.
\<close>

lemma midnight_after:
  assumes "date_of as_of_dt \<le> due"
  shows "- 86400000000 < midnight due - as_of_dt"
proof -
  have "as_of_dt - as_of_dt mod usec_per_day = date_of as_of_dt * usec_per_day"
    unfolding date_of_def by (simp add: minus_mod_eq_div_mult)
  moreover have "as_of_dt mod usec_per_day < usec_per_day"
    unfolding usec_per_day_def by simp
  moreover have "date_of as_of_dt * usec_per_day \<le> due * usec_per_day"
    using assms unfolding usec_per_day_def by simp
  ultimately have "- usec_per_day < midnight due - as_of_dt"
    unfolding midnight_def by linarith
  then show ?thesis
    by (simp add: usec_per_day_def)
qed

lemma days_until_exact:
  assumes "date_of as_of_dt \<le> due" "midnight due - as_of_dt < 50000 * 86400000000"
  shows "days_until as_of_dt due = \<lceil>(of_int (midnight due - as_of_dt) :: rat) / 86400000000\<rceil>"
  unfolding days_until_def total_seconds_def
  using midnight_after[OF assms(1)] assms(2) by (rule float_days_exact)

lemma days_until_nonneg:
  assumes "date_of as_of_dt \<le> due"
  shows "0 \<le> days_until as_of_dt due"
proof (cases "midnight due - as_of_dt < 0")
  case True
  then have "midnight due - as_of_dt < 50000 * 86400000000" by simp
  with assms have e: "days_until as_of_dt due
       = \<lceil>(of_int (midnight due - as_of_dt) :: rat) / 86400000000\<rceil>"
    by (rule days_until_exact)
  from midnight_after[OF assms]
  have "(- 86400000000 :: rat) < of_int (midnight due - as_of_dt)"
    by (metis of_int_less_iff of_int_minus of_int_numeral)
  then have "(- 1 :: rat) < of_int (midnight due - as_of_dt) / 86400000000"
    by (simp add: pos_less_divide_eq)
  then show ?thesis
    unfolding e by (simp add: zero_le_ceiling)
next
  case False
  then have "(0 :: rat) \<le> of_int (midnight due - as_of_dt) / 1000000"
    by simp
  then have "0 \<le> total_seconds (midnight due - as_of_dt)"
    unfolding total_seconds_def by (rule float_round_nonneg)
  then have "0 \<le> total_seconds (midnight due - as_of_dt) / 86400"
    by simp
  then have "0 \<le> float_round (total_seconds (midnight due - as_of_dt) / 86400)"
    by (rule float_round_nonneg)
  then have "(0 :: int) \<le> \<lceil>float_round (total_seconds (midnight due - as_of_dt) / 86400)\<rceil>"
    by (simp add: zero_le_ceiling)
  then show ?thesis
    by (simp add: days_until_def)
qed


lemma setdefault_apply_keys:
  "map fst (setdefault_apply k f d kvs) =
     (if k \<in> fst ` set kvs then map fst kvs else map fst kvs @ [k])"
proof (induction kvs)
  case Nil
  show ?case by simp
next
  case (Cons kv kvs)
  obtain k' v where kv: "kv = (k', v)" by (cases kv)
  show ?case
  proof (cases "k' = k")
    case True
    with kv show ?thesis by simp
  next
    case False
    with kv Cons show ?thesis by simp
  qed
qed

lemma setdefault_apply_map_of:
  "map_of (setdefault_apply k f d kvs) k' =
     (if k' = k then Some (f (case map_of kvs k of None \<Rightarrow> d | Some v \<Rightarrow> v)) else map_of kvs k')"
  by (induction kvs) auto

lemma setdefault_apply_distinct:
  "distinct (map fst kvs) \<Longrightarrow> distinct (map fst (setdefault_apply k f d kvs))"
  by (simp add: setdefault_apply_keys)

text \<open>
  What the schedule holds after the registrations have been filed: every date and every
  folder under it once, each folder with its group.
\<close>

definition folders_ok :: "(string list \<times> (ppath \<times> date) list) list \<Rightarrow> registration list \<Rightarrow> date \<Rightarrow> bool" where
  "folders_ok fl regs d =
     (distinct (map fst fl)
      \<and> (\<forall>f. case map_of fl f of
               None \<Rightarrow> group_of regs d f = []
             | Some es \<Rightarrow> es \<noteq> [] \<and> es = group_of regs d f))"

definition sched_ok :: "schedule \<Rightarrow> registration list \<Rightarrow> bool" where
  "sched_ok S regs =
     (distinct (map fst S)
      \<and> (\<forall>d. case map_of S d of
               None \<Rightarrow> (\<forall>f. group_of regs d f = [])
             | Some fl \<Rightarrow> folders_ok fl regs d))"

lemma group_of_snoc:
  "group_of (regs @ [(d0, f0, rel, due)]) d f =
     group_of regs d f @ (if d = d0 \<and> f = f0 then [(rel, due)] else [])"
  by (simp add: group_of_def)

lemma folders_ok_other:
  assumes "folders_ok fl regs d" "d \<noteq> d0"
  shows "folders_ok fl (regs @ [(d0, f0, rel, due)]) d"
proof -
  have eq: "\<And>f. group_of (regs @ [(d0, f0, rel, due)]) d f = group_of regs d f"
    using assms(2) by (simp add: group_of_snoc)
  show ?thesis
    using assms(1) unfolding folders_ok_def eq .
qed

lemma folders_ok_same:
  assumes "folders_ok fl regs d"
  shows "folders_ok (setdefault_apply f0 (\<lambda>l. l @ [(rel, due)]) [] fl) (regs @ [(d, f0, rel, due)]) d"
  unfolding folders_ok_def
proof (intro conjI allI)
  show "distinct (map fst (setdefault_apply f0 (\<lambda>l. l @ [(rel, due)]) [] fl))"
    using assms by (simp add: folders_ok_def setdefault_apply_distinct)
next
  fix f
  have a: "case map_of fl f of None \<Rightarrow> group_of regs d f = []
             | Some es \<Rightarrow> es \<noteq> [] \<and> es = group_of regs d f"
    using assms by (simp add: folders_ok_def)
  have b: "case map_of fl f0 of None \<Rightarrow> group_of regs d f0 = []
             | Some es \<Rightarrow> es \<noteq> [] \<and> es = group_of regs d f0"
    using assms by (simp add: folders_ok_def)
  show "case map_of (setdefault_apply f0 (\<lambda>l. l @ [(rel, due)]) [] fl) f of
          None \<Rightarrow> group_of (regs @ [(d, f0, rel, due)]) d f = []
        | Some es \<Rightarrow> es \<noteq> [] \<and> es = group_of (regs @ [(d, f0, rel, due)]) d f"
  proof (cases "f = f0")
    case True
    with b show ?thesis
      by (cases "map_of fl f0") (simp_all add: setdefault_apply_map_of group_of_snoc)
  next
    case False
    with a show ?thesis
      by (cases "map_of fl f") (simp_all add: setdefault_apply_map_of group_of_snoc)
  qed
qed

lemma folders_ok_empty: "\<forall>f. group_of regs d f = [] \<Longrightarrow> folders_ok [] regs d"
  by (simp add: folders_ok_def)

lemma sched_ok_register:
  assumes "sched_ok S regs"
  shows "sched_ok (register S r) (regs @ [r])"
proof -
  obtain d0 f0 rel due where r: "r = (d0, f0, rel, due)" by (cases r)
  from assms have dist: "distinct (map fst S)" by (simp add: sched_ok_def)
  have inner: "\<And>d. (case map_of S d of
               None \<Rightarrow> (\<forall>f. group_of regs d f = [])
             | Some fl \<Rightarrow> folders_ok fl regs d)"
    using assms by (simp add: sched_ok_def)
  have reg: "register S r = setdefault_apply d0
          (setdefault_apply f0 (\<lambda>l. l @ [(rel, due)]) []) [] S"
    by (simp add: register_def r)
  show ?thesis
    unfolding sched_ok_def reg
  proof (intro conjI allI)
    show "distinct (map fst (setdefault_apply d0 (setdefault_apply f0 (\<lambda>l. l @ [(rel, due)]) []) [] S))"
      using dist by (simp add: setdefault_apply_distinct)
  next
    fix d
    show "case map_of (setdefault_apply d0 (setdefault_apply f0 (\<lambda>l. l @ [(rel, due)]) []) [] S) d of
               None \<Rightarrow> (\<forall>f. group_of (regs @ [r]) d f = [])
             | Some fl \<Rightarrow> folders_ok fl (regs @ [r]) d"
    proof (cases "d = d0")
      case True
      show ?thesis
      proof (cases "map_of S d0")
        case None
        with inner[of d0] have "folders_ok [] regs d0"
          by (simp add: folders_ok_empty)
        then have "folders_ok (setdefault_apply f0 (\<lambda>l. l @ [(rel, due)]) [] [])
                     (regs @ [(d0, f0, rel, due)]) d0"
          by (rule folders_ok_same)
        then show ?thesis
          using True None by (simp add: setdefault_apply_map_of r)
      next
        case (Some fl)
        with inner[of d0] have "folders_ok fl regs d0" by simp
        then show ?thesis
          using True Some by (simp add: setdefault_apply_map_of r folders_ok_same)
      qed
    next
      case False
      with inner[of d] show ?thesis
        by (cases "map_of S d")
           (simp_all add: setdefault_apply_map_of r group_of_snoc folders_ok_other)
    qed
  qed
qed

lemma sched_ok_foldl: "sched_ok (foldl register [] regs) regs"
proof (induction regs rule: rev_induct)
  case Nil
  show ?case by (simp add: sched_ok_def group_of_def)
next
  case (snoc r regs)
  then show ?case by (simp add: sched_ok_register)
qed

text \<open>
  The alert that \<open>upcoming_alerts\<close> builds for one folder of one date.
\<close>

definition alert_of :: "datetime \<Rightarrow> date \<Rightarrow> string list \<times> (ppath \<times> date) list \<Rightarrow> Alert" where
  "alert_of as_of_dt d fe =
     \<lparr> folder = fst fe,
       files = map fst (sort_key (\<lambda>item. as_posix (fst item)) (snd fe)),
       alert_date = d,
       days_until_deletion = Min ((\<lambda>item. days_until as_of_dt (snd item)) ` set (snd fe)) \<rparr>"

lemma folder_alert_Inr:
  assumes "es \<noteq> []"
  shows "folder_alert as_of_dt d (f, es) = Inr (alert_of as_of_dt d (f, es))"
proof -
  let ?s = "sort_key (\<lambda>item. as_posix (fst item)) es"
  have ne: "map (\<lambda>item. days_until as_of_dt (snd item)) ?s \<noteq> []"
    using assms by (metis length_0_conv length_map length_sort)
  have "min_list (map (\<lambda>item. days_until as_of_dt (snd item)) ?s)
          = Min (set (map (\<lambda>item. days_until as_of_dt (snd item)) ?s))"
    using ne by (rule min_list_Min)
  also have "\<dots> = Min ((\<lambda>item. days_until as_of_dt (snd item)) ` set es)"
    by simp
  finally show ?thesis
    using ne by (simp add: folder_alert_def py_min_def alert_of_def Let_def)
qed

lemma all_or_error_pure:
  "(\<And>x. x \<in> set xs \<Longrightarrow> f x = Inr (g x)) \<Longrightarrow> all_or_error (map f xs) = Inr (map g xs)"
  by (induction xs) auto

lemma folders_ok_entries:
  "folders_ok fl regs d \<Longrightarrow> (f, es) \<in> set fl \<Longrightarrow> es \<noteq> [] \<and> es = group_of regs d f"
proof -
  assume ok: "folders_ok fl regs d" and m: "(f, es) \<in> set fl"
  then have "map_of fl f = Some es"
    by (simp add: folders_ok_def)
  moreover from ok have "case map_of fl f of None \<Rightarrow> group_of regs d f = []
                  | Some es \<Rightarrow> es \<noteq> [] \<and> es = group_of regs d f"
    by (simp add: folders_ok_def)
  ultimately show ?thesis
    by auto
qed

lemma date_alerts_Inr:
  assumes "folders_ok fl regs d"
  shows "date_alerts as_of_dt (d, fl) = Inr (d, map (alert_of as_of_dt d) fl)"
proof -
  have "all_or_error (map (folder_alert as_of_dt d) fl) = Inr (map (alert_of as_of_dt d) fl)"
  proof (rule all_or_error_pure)
    fix x assume x: "x \<in> set fl"
    obtain f es where fe: "x = (f, es)" by (cases x)
    with x assms have "es \<noteq> []" by (auto dest: folders_ok_entries)
    with fe show "folder_alert as_of_dt d x = Inr (alert_of as_of_dt d x)"
      by (simp add: folder_alert_Inr)
  qed
  then show ?thesis
    by (simp add: date_alerts_def)
qed

lemma sched_ok_folders:
  "sched_ok S regs \<Longrightarrow> (d, fl) \<in> set S \<Longrightarrow> folders_ok fl regs d"
proof -
  assume ok: "sched_ok S regs" and m: "(d, fl) \<in> set S"
  then have "map_of S d = Some fl"
    by (simp add: sched_ok_def)
  moreover from ok have "case map_of S d of None \<Rightarrow> (\<forall>f. group_of regs d f = [])
                  | Some fl \<Rightarrow> folders_ok fl regs d"
    by (simp add: sched_ok_def)
  ultimately show ?thesis
    by simp
qed

definition alerts_of :: "datetime \<Rightarrow> schedule \<Rightarrow> (date \<times> Alert list) list" where
  "alerts_of as_of_dt S = map (\<lambda>df. (fst df, map (alert_of as_of_dt (fst df)) (snd df))) S"

lemma schedule_alerts:
  assumes "sched_ok S regs"
  shows "all_or_error (map (date_alerts as_of_dt) S) = Inr (alerts_of as_of_dt S)"
  unfolding alerts_of_def
proof (rule all_or_error_pure)
  fix x assume x: "x \<in> set S"
  obtain d fl where dfl: "x = (d, fl)" by (cases x)
  with x assms have "folders_ok fl regs d" by (auto dest: sched_ok_folders)
  with dfl show "date_alerts as_of_dt x = Inr (fst x, map (alert_of as_of_dt (fst x)) (snd x))"
    by (simp add: date_alerts_Inr)
qed

lemma upcoming_alerts_eq:
  assumes "window_end (date_of (normalize_datetime now as_of)) window_days = Inr end_date"
      and "registrations rm fs rules (normalize_datetime now as_of) end_date = Inr regs"
  shows "upcoming_alerts rm fs rules now as_of window_days
           = Inr (alerts_of (normalize_datetime now as_of) (foldl register [] regs))"
  using assms by (simp add: upcoming_alerts_def Let_def schedule_alerts[OF sched_ok_foldl])

lemma upcoming_alerts_Inr:
  assumes "upcoming_alerts rm fs rules now as_of window_days = Inr res"
  obtains regs where
    "window_end (date_of (normalize_datetime now as_of)) window_days
       = Inr (date_of (normalize_datetime now as_of) + window_days)"
    "registrations rm fs rules (normalize_datetime now as_of)
       (date_of (normalize_datetime now as_of) + window_days) = Inr regs"
    "res = alerts_of (normalize_datetime now as_of) (foldl register [] regs)"
proof -
  let ?t = "normalize_datetime now as_of"
  from assms obtain e where e: "window_end (date_of ?t) window_days = Inr e"
    by (cases "window_end (date_of ?t) window_days") (simp_all add: upcoming_alerts_def Let_def)
  then have ee: "e = date_of ?t + window_days"
    by (rule window_end_Inr)
  from assms e obtain regs where r: "registrations rm fs rules ?t e = Inr regs"
    by (cases "registrations rm fs rules ?t e") (simp_all add: upcoming_alerts_def Let_def)
  from upcoming_alerts_eq[OF e r] assms
  have "res = alerts_of ?t (foldl register [] regs)"
    by simp
  with e r ee that show ?thesis
    by simp
qed

lemma alerts_of_mem:
  assumes ok: "sched_ok S regs" and m: "(d, alerts) \<in> set (alerts_of as_of_dt S)" and a: "a \<in> set alerts"
  shows "distinct (map folder alerts) \<and> alert_date a = d \<and> group_of regs d (folder a) \<noteq> []
         \<and> a = alert_of as_of_dt d (folder a, group_of regs d (folder a))"
proof -
  from m obtain fl where fl: "(d, fl) \<in> set S" "alerts = map (alert_of as_of_dt d) fl"
    by (auto simp: alerts_of_def)
  have fok: "folders_ok fl regs d"
    using ok fl(1) by (rule sched_ok_folders)
  have "map folder alerts = map fst fl"
    by (simp add: fl(2) alert_of_def)
  with fok have d: "distinct (map folder alerts)"
    by (simp add: folders_ok_def)
  from a fl obtain f es where fe: "(f, es) \<in> set fl" "a = alert_of as_of_dt d (f, es)"
    by auto
  with fok have "es \<noteq> []" "es = group_of regs d f"
    by (auto dest: folders_ok_entries)
  with fe d show ?thesis
    by (simp add: alert_of_def)
qed

lemma alerts_of_group:
  assumes ok: "sched_ok S regs" and g: "group_of regs d f \<noteq> []"
  shows "\<exists>alerts. (d, alerts) \<in> set (alerts_of as_of_dt S)
           \<and> alert_of as_of_dt d (f, group_of regs d f) \<in> set alerts"
proof -
  from ok have "case map_of S d of None \<Rightarrow> (\<forall>f. group_of regs d f = [])
                  | Some fl \<Rightarrow> folders_ok fl regs d"
    by (simp add: sched_ok_def)
  with g obtain fl where fl: "map_of S d = Some fl" "folders_ok fl regs d"
    by (cases "map_of S d") simp_all
  from fl(2) have "case map_of fl f of None \<Rightarrow> group_of regs d f = []
                  | Some es \<Rightarrow> es \<noteq> [] \<and> es = group_of regs d f"
    by (simp add: folders_ok_def)
  with g obtain es where es: "map_of fl f = Some es" "es = group_of regs d f"
    by (cases "map_of fl f") simp_all
  have "(d, fl) \<in> set S" using fl(1) by (rule map_of_SomeD)
  then have "(d, map (alert_of as_of_dt d) fl) \<in> set (alerts_of as_of_dt S)"
    by (force simp: alerts_of_def)
  moreover have "(f, es) \<in> set fl" using es(1) by (rule map_of_SomeD)
  then have "alert_of as_of_dt d (f, es) \<in> set (map (alert_of as_of_dt d) fl)"
    by force
  ultimately show ?thesis using es(2) by blast
qed

lemma alerts_of_distinct: "sched_ok S regs \<Longrightarrow> distinct (map fst (alerts_of as_of_dt S))"
  by (simp add: alerts_of_def sched_ok_def comp_def)

lemma group_of_due:
  "(rel, due) \<in> set (group_of regs d f) \<Longrightarrow> \<exists>x \<in> set regs. snd (snd (snd x)) = due"
  by (force simp: group_of_def)


text \<open>
  C9. Every alert that \<open>upcoming_alerts\<close> returns has a non-negative
  \<open>days_until_deletion\<close>: an entry is registered only when its due instant is not
  before \<open>as_of\<close>, so the first instant of its due date is less than a day before
  \<open>as_of\<close> and the ceiling of the difference in days is not negative.
\<close>

theorem days_until_deletion_nonneg:
  assumes "upcoming_alerts rm fs rules now as_of window_days = Inr res"
      and "(d, alerts) \<in> set res" and "a \<in> set alerts"
  shows "0 \<le> days_until_deletion a"
proof -
  let ?t = "normalize_datetime now as_of"
  from assms(1) obtain regs where
      regs: "registrations rm fs rules ?t (date_of ?t + window_days) = Inr regs"
    and res: "res = alerts_of ?t (foldl register [] regs)"
    by (rule upcoming_alerts_Inr)
  from alerts_of_mem[OF sched_ok_foldl assms(2)[unfolded res] assms(3)]
  have ne: "group_of regs d (folder a) \<noteq> []"
    and a: "a = alert_of ?t d (folder a, group_of regs d (folder a))"
    by simp_all
  let ?D = "(\<lambda>item. days_until ?t (snd item)) ` set (group_of regs d (folder a))"
  have dd: "days_until_deletion a = Min ?D"
    by (subst a) (simp add: alert_of_def)
  have "Min ?D \<in> ?D"
    using ne by (intro Min_in) simp_all
  moreover have "\<forall>x \<in> ?D. 0 \<le> x"
  proof
    fix x assume "x \<in> ?D"
    then obtain rel due where i: "(rel, due) \<in> set (group_of regs d (folder a))"
       "x = days_until ?t due"
      by auto
    then obtain r where "r \<in> set regs" "snd (snd (snd r)) = due"
      by (blast dest: group_of_due)
    with regs have "date_of ?t \<le> due"
      using registrations_due by blast
    with i show "0 \<le> x" by (simp add: days_until_nonneg)
  qed
  ultimately have "0 \<le> Min ?D" by blast
  with dd show ?thesis by simp
qed

text \<open>
  Example file systems and rules. Day 738885 is 1 January 2024.
\<close>

definition dir_node :: "datetime \<Rightarrow> node" where
  "dir_node m = \<lparr> is_dir = True, mtime = m, data = [] \<rparr>"

definition file_node :: "datetime \<Rightarrow> string \<Rightarrow> node" where
  "file_node m d = \<lparr> is_dir = False, mtime = m, data = d \<rparr>"

definition same_day_fs :: fs where
  "same_day_fs = [([], dir_node 0), ([''r''], dir_node (days 90)),
                  ([''r'', ''f.txt''], file_node (days 90 + hours 20) ''f'')]"

definition same_day_rule :: FolderRule where
  "same_day_rule =
     \<lparr> path = [''r''], retention = days 10, notify_before = [0], exemptions = [],
       action = ''delete'', patterns = [] \<rparr>"

definition same_day_alert :: Alert where
  "same_day_alert = \<lparr> folder = [''r''], files = [\<lparr> anchor = [], comps = [''f.txt''] \<rparr>],
                       alert_date = 100, days_until_deletion = 0 \<rparr>"

theorem days_until_deletion_nonneg_witness:
  "upcoming_alerts literal_match same_day_fs [same_day_rule] 0
       (AsOfDatetime (days 100 + hours 18)) 0 = Inr [(100, [same_day_alert])]
   \<and> (100, [same_day_alert]) \<in> set [(100, [same_day_alert])]
   \<and> same_day_alert \<in> set [same_day_alert]
   \<and> 0 \<le> days_until_deletion same_day_alert"
proof -
  have u: "upcoming_alerts literal_match same_day_fs [same_day_rule] 0
       (AsOfDatetime (days 100 + hours 18)) 0 = Inr [(100, [same_day_alert])]"
    by code_simp
  have m: "(100, [same_day_alert]) \<in> set [(100, [same_day_alert])]"
     and a: "same_day_alert \<in> set [same_day_alert]"
    by simp_all
  from days_until_deletion_nonneg [OF u m a] u show ?thesis
    by simp
qed

text \<open>
  The alerts that \<open>upcoming_alerts\<close> returns, group by group: every date is a key once
  and every folder has one alert under a date; the alerts are exactly those of the
  non-empty groups; the alert of a group lists the group's relative paths sorted by their
  POSIX text, and its \<open>days_until_deletion\<close> is the least of the day counts of the
  group's entries, each computed in double arithmetic. Where every entry of the group is
  due less than 50000 days after \<open>as_of\<close>, that is the least of the exact ceilings.
\<close>

lemma alert_of_each_group:
  assumes "upcoming_alerts rm fs rules now as_of window_days = Inr res"
  shows "\<exists>regs. registrations rm fs rules (normalize_datetime now as_of)
                  (date_of (normalize_datetime now as_of) + window_days) = Inr regs
      \<and> distinct (map fst res)
      \<and> (\<forall>d alerts. (d, alerts) \<in> set res \<longrightarrow>
            distinct (map folder alerts)
            \<and> (\<forall>a \<in> set alerts. alert_date a = d \<and> group_of regs d (folder a) \<noteq> []))
      \<and> (\<forall>d f. group_of regs d f \<noteq> [] \<longrightarrow>
            (\<exists>alerts a. (d, alerts) \<in> set res \<and> a \<in> set alerts \<and> folder a = f
               \<and> files a = map fst (sort_key (\<lambda>item. as_posix (fst item)) (group_of regs d f))
               \<and> sorted (map as_posix (files a))
               \<and> days_until_deletion a =
                   Min ((\<lambda>item. \<lceil>float_round (float_round
                            (of_int (snd item * 86400000000 - normalize_datetime now as_of) / 1000000)
                               / 86400)\<rceil>)
                          ` set (group_of regs d f))
               \<and> ((\<forall>item \<in> set (group_of regs d f).
                       snd item * 86400000000 - normalize_datetime now as_of < 50000 * 86400000000)
                    \<longrightarrow> days_until_deletion a =
                          Min ((\<lambda>item. \<lceil>(of_int (snd item * 86400000000 - normalize_datetime now as_of) :: rat)
                                          / 86400000000\<rceil>)
                               ` set (group_of regs d f)))))"
proof -
  let ?t = "normalize_datetime now as_of"
  from assms obtain regs where
      regs: "registrations rm fs rules ?t (date_of ?t + window_days) = Inr regs"
    and res: "res = alerts_of ?t (foldl register [] regs)"
    by (rule upcoming_alerts_Inr)
  let ?S = "foldl register [] regs"
  have ok: "sched_ok ?S regs" by (rule sched_ok_foldl)
  have 2: "distinct (map fst res)"
    unfolding res using ok by (rule alerts_of_distinct)
  have 3: "\<forall>d alerts. (d, alerts) \<in> set res \<longrightarrow>
            distinct (map folder alerts)
            \<and> (\<forall>a \<in> set alerts. alert_date a = d \<and> group_of regs d (folder a) \<noteq> [])"
  proof (intro allI impI conjI ballI)
    fix d alerts assume m: "(d, alerts) \<in> set res"
    then obtain fl where fl: "(d, fl) \<in> set ?S" "alerts = map (alert_of ?t d) fl"
      by (auto simp: alerts_of_def res)
    have "map folder alerts = map fst fl"
      by (simp add: fl(2) alert_of_def)
    moreover have "folders_ok fl regs d"
      using ok fl(1) by (rule sched_ok_folders)
    ultimately show "distinct (map folder alerts)"
      by (simp add: folders_ok_def)
  next
    fix d alerts a assume "(d, alerts) \<in> set res" "a \<in> set alerts"
    from alerts_of_mem[OF ok this(1)[unfolded res] this(2)] show "alert_date a = d" by simp
  next
    fix d alerts a assume "(d, alerts) \<in> set res" "a \<in> set alerts"
    from alerts_of_mem[OF ok this(1)[unfolded res] this(2)]
    show "group_of regs d (folder a) \<noteq> []" by simp
  qed
  have 4: "\<forall>d f. group_of regs d f \<noteq> [] \<longrightarrow>
            (\<exists>alerts a. (d, alerts) \<in> set res \<and> a \<in> set alerts \<and> folder a = f
               \<and> files a = map fst (sort_key (\<lambda>item. as_posix (fst item)) (group_of regs d f))
               \<and> sorted (map as_posix (files a))
               \<and> days_until_deletion a =
                   Min ((\<lambda>item. \<lceil>float_round (float_round
                            (of_int (snd item * 86400000000 - ?t) / 1000000) / 86400)\<rceil>)
                          ` set (group_of regs d f))
               \<and> ((\<forall>item \<in> set (group_of regs d f).
                       snd item * 86400000000 - ?t < 50000 * 86400000000)
                    \<longrightarrow> days_until_deletion a =
                          Min ((\<lambda>item. \<lceil>(of_int (snd item * 86400000000 - ?t) :: rat)
                                          / 86400000000\<rceil>)
                               ` set (group_of regs d f))))"
  proof (intro allI impI)
    fix d f assume g: "group_of regs d f \<noteq> []"
    let ?g = "group_of regs d f"
    from alerts_of_group[OF ok g, of ?t] obtain alerts where al:
      "(d, alerts) \<in> set res" "alert_of ?t d (f, ?g) \<in> set alerts"
      unfolding res by blast
    let ?a = "alert_of ?t d (f, ?g)"
    have "map as_posix (files ?a)
            = map (\<lambda>item. as_posix (fst item)) (sort_key (\<lambda>item. as_posix (fst item)) ?g)"
      by (simp add: alert_of_def)
    then have so: "sorted (map as_posix (files ?a))"
      by (simp only: sorted_sort_key)
    have fi: "folder ?a = f" "files ?a = map fst (sort_key (\<lambda>item. as_posix (fst item)) ?g)"
      by (simp_all add: alert_of_def)
    have dd: "days_until_deletion ?a = Min ((\<lambda>item. days_until ?t (snd item)) ` set ?g)"
      by (simp add: alert_of_def)
    have fl: "(\<lambda>item. days_until ?t (snd item))
                = (\<lambda>item. \<lceil>float_round (float_round
                            (of_int (snd item * 86400000000 - ?t) / 1000000) / 86400)\<rceil>)"
      by (simp add: days_until_def total_seconds_def midnight_def usec_per_day_def)
    have d1: "days_until_deletion ?a =
                   Min ((\<lambda>item. \<lceil>float_round (float_round
                            (of_int (snd item * 86400000000 - ?t) / 1000000) / 86400)\<rceil>) ` set ?g)"
      unfolding dd fl ..
    have d2: "days_until_deletion ?a =
                 Min ((\<lambda>item. \<lceil>(of_int (snd item * 86400000000 - ?t) :: rat) / 86400000000\<rceil>) ` set ?g)"
      if b: "\<forall>item \<in> set ?g. snd item * 86400000000 - ?t < 50000 * 86400000000"
    proof -
      have "days_until ?t (snd item)
              = \<lceil>(of_int (snd item * 86400000000 - ?t) :: rat) / 86400000000\<rceil>"
        if i: "item \<in> set ?g" for item
      proof -
        obtain rel due where it: "item = (rel, due)" by (cases item)
        with i obtain r where "r \<in> set regs" "snd (snd (snd r)) = due"
          by (blast dest: group_of_due)
        with regs have "date_of ?t \<le> due"
          using registrations_due by blast
        moreover from b i it have "midnight due - ?t < 50000 * 86400000000"
          by (auto simp: midnight_def usec_per_day_def)
        ultimately have "days_until ?t due
              = \<lceil>(of_int (midnight due - ?t) :: rat) / 86400000000\<rceil>"
          by (rule days_until_exact)
        with it show ?thesis
          by (simp add: midnight_def usec_per_day_def)
      qed
      then have "(\<lambda>item. days_until ?t (snd item)) ` set ?g
                   = (\<lambda>item. \<lceil>(of_int (snd item * 86400000000 - ?t) :: rat) / 86400000000\<rceil>) ` set ?g"
        by (intro image_cong) simp_all
      with dd show ?thesis by simp
    qed
    from al so fi d1 d2
    show "\<exists>alerts a. (d, alerts) \<in> set res \<and> a \<in> set alerts \<and> folder a = f
               \<and> files a = map fst (sort_key (\<lambda>item. as_posix (fst item)) ?g)
               \<and> sorted (map as_posix (files a))
               \<and> days_until_deletion a =
                   Min ((\<lambda>item. \<lceil>float_round (float_round
                            (of_int (snd item * 86400000000 - ?t) / 1000000) / 86400)\<rceil>)
                          ` set ?g)
               \<and> ((\<forall>item \<in> set ?g. snd item * 86400000000 - ?t < 50000 * 86400000000)
                    \<longrightarrow> days_until_deletion a =
                          Min ((\<lambda>item. \<lceil>(of_int (snd item * 86400000000 - ?t) :: rat)
                                          / 86400000000\<rceil>)
                               ` set ?g))"
      by (intro exI[of _ alerts] exI[of _ ?a]) blast
  qed
  from regs 2 3 4 show ?thesis by blast
qed

text \<open>
  The grouping example of the specification: two files of one folder whose lead-times
  give the same alert date make one alert, files sorted, with the smaller day count
  (the ceiling of 9 days and 18 hours).
\<close>

definition merge_fs :: fs where
  "merge_fs = [([], dir_node 0), ([''r''], dir_node (days 738885)),
               ([''r'', ''b.txt''], file_node (days 738885 + hours 8) ''b''),
               ([''r'', ''a.log''], file_node (days 738885 + hours 8) ''a'')]"

definition merge_rule :: FolderRule where
  "merge_rule =
     \<lparr> path = [''r''], retention = days 12, notify_before = [days 4], exemptions = [],
       action = ''delete'',
       patterns = [\<lparr> pattern = ''^a'', retention = days 10, notify_before = [days 2],
                    action = ''delete'' \<rparr>] \<rparr>"

lemma merged_alert:
  "upcoming_alerts literal_match merge_fs [merge_rule] 0
       (AsOfDatetime (days 738885 + hours 6)) 10
     = Inr [(738893, [\<lparr> folder = [''r''],
                        files = [\<lparr> anchor = [], comps = [''a.log''] \<rparr>,
                                 \<lparr> anchor = [], comps = [''b.txt''] \<rparr>],
                        alert_date = 738893, days_until_deletion = 10 \<rparr>])]"
  by code_simp

text \<open>
  C4. The day count is computed in double arithmetic and loses a day far ahead. A file
  modified at the first instant of 1 January 2024 under a rule with a retention of
  299999 days and lead-time zero, with \<open>as_of\<close> one microsecond before that instant and
  a window of 300000 days: the first instant of the due date is 299999 days and one
  microsecond after \<open>as_of\<close>, the ceiling of which is 300000 days, and the alert says
  299999. (In seconds the difference is not a double; the nearest one is the whole
  number of seconds.)
\<close>

definition far_fs :: fs where
  "far_fs = [([], dir_node 0), ([''r''], dir_node (days 738885)),
             ([''r'', ''f.txt''], file_node (days 738885) ''f'')]"

definition far_rule :: FolderRule where
  "far_rule =
     \<lparr> path = [''r''], retention = days 299999, notify_before = [0], exemptions = [],
       action = ''delete'', patterns = [] \<rparr>"

theorem day_count_loses_a_day:
  "upcoming_alerts literal_match far_fs [far_rule] 0 (AsOfDatetime (days 738885 - 1)) 300000
     = Inr [(1038884, [\<lparr> folder = [''r''], files = [\<lparr> anchor = [], comps = [''f.txt''] \<rparr>],
                          alert_date = 1038884, days_until_deletion = 299999 \<rparr>])]
   \<and> \<lceil>(of_int (midnight 1038884 - (days 738885 - 1)) :: rat) / of_int usec_per_day\<rceil> = 300000"
  by code_simp


lemma group_of_mem:
  "(rel, due) \<in> set (group_of regs d f) \<longleftrightarrow> (d, f, rel, due) \<in> set regs"
  by (force simp: group_of_def)

text \<open>An alert of the result lists a path exactly when the path is registered there.\<close>

lemma listed_iff_registered:
  assumes "sched_ok S regs"
  shows "(\<exists>alerts a. (d, alerts) \<in> set (alerts_of t S) \<and> a \<in> set alerts \<and> folder a = f
             \<and> rel \<in> set (files a))
         \<longleftrightarrow> (\<exists>due. (d, f, rel, due) \<in> set regs)"
proof
  assume "\<exists>alerts a. (d, alerts) \<in> set (alerts_of t S) \<and> a \<in> set alerts \<and> folder a = f
             \<and> rel \<in> set (files a)"
  then obtain alerts a where h: "(d, alerts) \<in> set (alerts_of t S)" "a \<in> set alerts"
      "folder a = f" "rel \<in> set (files a)"
    by blast
  from alerts_of_mem[OF assms h(1) h(2)] h(3)
  have "a = alert_of t d (f, group_of regs d f)"
    by simp
  then have "files a = map fst (sort_key (\<lambda>item. as_posix (fst item)) (group_of regs d f))"
    by (simp add: alert_of_def)
  with h(4) obtain due where "(rel, due) \<in> set (group_of regs d f)"
    by auto
  then show "\<exists>due. (d, f, rel, due) \<in> set regs"
    by (auto simp: group_of_mem)
next
  assume "\<exists>due. (d, f, rel, due) \<in> set regs"
  then obtain due where m: "(rel, due) \<in> set (group_of regs d f)"
    by (auto simp: group_of_mem)
  then have g: "group_of regs d f \<noteq> []"
    by auto
  from alerts_of_group[OF assms g, of t] obtain alerts where al:
      "(d, alerts) \<in> set (alerts_of t S)" "alert_of t d (f, group_of regs d f) \<in> set alerts"
    by blast
  let ?a = "alert_of t d (f, group_of regs d f)"
  have "folder ?a = f"
    by (simp add: alert_of_def)
  moreover have "rel \<in> set (files ?a)"
    using m by (force simp: alert_of_def)
  ultimately show "\<exists>alerts a. (d, alerts) \<in> set (alerts_of t S) \<and> a \<in> set alerts \<and> folder a = f
             \<and> rel \<in> set (files a)"
    using al by blast
qed

lemma setdefault_apply_all:
  "(\<forall>kv \<in> set kvs. P (snd kv)) \<Longrightarrow> (\<And>v. P (f v)) \<Longrightarrow>
     \<forall>kv \<in> set (setdefault_apply k f d kvs). P (snd kv)"
  by (induction kvs) (fastforce split: if_splits)+

lemma setdefault_apply_not_Nil: "setdefault_apply k f d kvs \<noteq> []"
  by (cases kvs) (auto split: if_splits)

lemma schedule_folders_not_Nil:
  "\<forall>df \<in> set (foldl register [] regs). snd df \<noteq> []"
proof (induction regs rule: rev_induct)
  case Nil
  show ?case by simp
next
  case (snoc r regs)
  obtain d0 f0 rel due where r: "r = (d0, f0, rel, due)" by (cases r)
  have e: "foldl register [] (regs @ [r])
             = setdefault_apply d0
                 (setdefault_apply f0 (\<lambda>folder_alerts. folder_alerts @ [(rel, due)]) [])
                 [] (foldl register [] regs)"
    by (simp add: register_def r)
  have "\<forall>kv \<in> set (setdefault_apply d0
             (setdefault_apply f0 (\<lambda>folder_alerts. folder_alerts @ [(rel, due)]) [])
             [] (foldl register [] regs)). snd kv \<noteq> []"
    using snoc by (rule setdefault_apply_all) (rule setdefault_apply_not_Nil)
  then show ?case
    unfolding e .
qed

lemma alerts_nonempty:
  assumes "(d, alerts) \<in> set (alerts_of t (foldl register [] regs))"
  shows "alerts \<noteq> [] \<and> (\<forall>a \<in> set alerts. files a \<noteq> [])"
proof -
  let ?S = "foldl register [] regs"
  have ok: "sched_ok ?S regs" by (rule sched_ok_foldl)
  from assms obtain fl where fl: "(d, fl) \<in> set ?S" "alerts = map (alert_of t d) fl"
    by (auto simp: alerts_of_def)
  from fl(1) schedule_folders_not_Nil[of regs] have "fl \<noteq> []"
    by force
  moreover have "\<forall>a \<in> set alerts. files a \<noteq> []"
  proof
    fix a assume "a \<in> set alerts"
    from alerts_of_mem[OF ok assms this]
    have g: "group_of regs d (folder a) \<noteq> []"
      and a: "a = alert_of t d (folder a, group_of regs d (folder a))"
      by simp_all
    have "files a = map fst (sort_key (\<lambda>item. as_posix (fst item)) (group_of regs d (folder a)))"
      by (subst a) (simp add: alert_of_def)
    with g show "files a \<noteq> []"
      by (metis length_0_conv length_map length_sort)
  qed
  ultimately show ?thesis
    using fl(2) by simp
qed

text \<open>
  C5. When \<open>upcoming_alerts\<close> returns, the alert of a date \<open>d\<close> and a folder lists a
  relative path exactly when the folder is the directory of a rule, the path is an entry
  of the traversal that is not exempt, its due instant (last modification plus
  effective retention) is not before \<open>as_of\<close>, and \<open>d\<close> is, for one of the
  effective lead-times \<open>L\<close>, the date of the due instant minus \<open>L\<close> and lies between
  the date of \<open>as_of\<close> and that date plus \<open>window_days\<close>, both included. No
  date of the result is without an alert and no alert without a path.
\<close>

theorem alert_window:
  assumes "upcoming_alerts rm fs rules now as_of window_days = Inr res"
  shows "((\<exists>alerts a. (d, alerts) \<in> set res \<and> a \<in> set alerts \<and> folder a = f
              \<and> rel \<in> set (files a))
          \<longleftrightarrow> (\<exists>rule found absolute_path m L.
                 rule \<in> set rules \<and> path rule = f \<and> path_exists fs f \<and> path_is_dir fs f
               \<and> iter_rule_entries fs rule = Inr found \<and> (absolute_path, rel) \<in> set found
               \<and> \<not> is_exempt rule rel
               \<and> modified_datetime fs absolute_path = Inr m
               \<and> \<not> m + fst (effective_policy rm rule rel) < normalize_datetime now as_of
               \<and> L \<in> set (effective_notify rm rule rel)
               \<and> d = date_of (m + fst (effective_policy rm rule rel) - L)
               \<and> date_of (normalize_datetime now as_of) \<le> d
               \<and> d \<le> date_of (normalize_datetime now as_of) + window_days))
       \<and> (\<forall>da \<in> set res. snd da \<noteq> [] \<and> (\<forall>a \<in> set (snd da). files a \<noteq> []))"
proof -
  let ?t = "normalize_datetime now as_of"
  from assms obtain regs where
      regs: "registrations rm fs rules ?t (date_of ?t + window_days) = Inr regs"
    and res: "res = alerts_of ?t (foldl register [] regs)"
    by (rule upcoming_alerts_Inr)
  have "(\<exists>alerts a. (d, alerts) \<in> set res \<and> a \<in> set alerts \<and> folder a = f
              \<and> rel \<in> set (files a))
        \<longleftrightarrow> (\<exists>due. (d, f, rel, due) \<in> set regs)"
    unfolding res using sched_ok_foldl by (rule listed_iff_registered)
  also have "\<dots> \<longleftrightarrow> (\<exists>due rule a. rule \<in> set rules \<and> path rule = f
              \<and> path_exists fs f \<and> path_is_dir fs f
              \<and> (a, rel) \<in> set (entries_of fs rule)
              \<and> registered rm fs ?t (date_of ?t + window_days) rule a rel d due)"
    by (simp only: registrations_mem[OF regs])
  also have "\<dots> \<longleftrightarrow> (\<exists>rule found absolute_path m L.
                 rule \<in> set rules \<and> path rule = f \<and> path_exists fs f \<and> path_is_dir fs f
               \<and> iter_rule_entries fs rule = Inr found \<and> (absolute_path, rel) \<in> set found
               \<and> \<not> is_exempt rule rel
               \<and> modified_datetime fs absolute_path = Inr m
               \<and> \<not> m + fst (effective_policy rm rule rel) < ?t
               \<and> L \<in> set (effective_notify rm rule rel)
               \<and> d = date_of (m + fst (effective_policy rm rule rel) - L)
               \<and> date_of ?t \<le> d
               \<and> d \<le> date_of ?t + window_days)"
    unfolding registered_def iter_rule_entries_total by blast
  finally have 1: "(\<exists>alerts a. (d, alerts) \<in> set res \<and> a \<in> set alerts \<and> folder a = f
              \<and> rel \<in> set (files a))
        \<longleftrightarrow> (\<exists>rule found absolute_path m L.
                 rule \<in> set rules \<and> path rule = f \<and> path_exists fs f \<and> path_is_dir fs f
               \<and> iter_rule_entries fs rule = Inr found \<and> (absolute_path, rel) \<in> set found
               \<and> \<not> is_exempt rule rel
               \<and> modified_datetime fs absolute_path = Inr m
               \<and> \<not> m + fst (effective_policy rm rule rel) < ?t
               \<and> L \<in> set (effective_notify rm rule rel)
               \<and> d = date_of (m + fst (effective_policy rm rule rel) - L)
               \<and> date_of ?t \<le> d
               \<and> d \<le> date_of ?t + window_days)" .
  have 2: "\<forall>da \<in> set res. snd da \<noteq> [] \<and> (\<forall>a \<in> set (snd da). files a \<noteq> [])"
  proof
    fix da assume "da \<in> set res"
    then have "(fst da, snd da) \<in> set (alerts_of ?t (foldl register [] regs))"
      by (simp add: res)
    then show "snd da \<noteq> [] \<and> (\<forall>a \<in> set (snd da). files a \<noteq> [])"
      by (rule alerts_nonempty)
  qed
  from 1 2 show ?thesis ..
qed


text \<open>
  The lead-time example of the specification: lead-times of 2 and 5 days, retention 10
  days, \<open>as_of\<close> the modification instant (1 January 2024, 09:00) and a window of 10
  days give alerts on the dates of \<open>as_of\<close> plus 8 and plus 5 days. With a window of 5
  days the later date is left out, with 4 days both are; and nothing is registered once
  the due instant is past.
\<close>

definition lead_fs :: fs where
  "lead_fs = [([], dir_node 0), ([''root''], dir_node (days 738885)),
              ([''root'', ''file.txt''], file_node (days 738885 + hours 9) ''data'')]"

definition lead_rule :: FolderRule where
  "lead_rule =
     \<lparr> path = [''root''], retention = days 10, notify_before = [days 2, days 5],
       exemptions = [], action = ''delete'', patterns = [] \<rparr>"

definition lead_alert :: "date \<Rightarrow> Alert" where
  "lead_alert d = \<lparr> folder = [''root''], files = [\<lparr> anchor = [], comps = [''file.txt''] \<rparr>],
                    alert_date = d, days_until_deletion = 10 \<rparr>"

theorem alert_window_witness:
  "upcoming_alerts literal_match lead_fs [lead_rule] 0 (AsOfDatetime (days 738885 + hours 9)) 10
     = Inr [(738893, [lead_alert 738893]), (738890, [lead_alert 738890])]
   \<and> upcoming_alerts literal_match lead_fs [lead_rule] 0 (AsOfDatetime (days 738885 + hours 9)) 5
     = Inr [(738890, [lead_alert 738890])]
   \<and> upcoming_alerts literal_match lead_fs [lead_rule] 0 (AsOfDatetime (days 738885 + hours 9)) 4
     = Inr []
   \<and> upcoming_alerts literal_match lead_fs [lead_rule] 0 (AsOfDatetime (days 738895 + hours 10)) 10
     = Inr []
   \<and> (\<exists>rule found absolute_path m L.
          rule \<in> set [lead_rule] \<and> path rule = [''root'']
        \<and> path_exists lead_fs [''root''] \<and> path_is_dir lead_fs [''root'']
        \<and> iter_rule_entries lead_fs rule = Inr found
        \<and> (absolute_path, \<lparr> anchor = [], comps = [''file.txt''] \<rparr>) \<in> set found
        \<and> \<not> is_exempt rule \<lparr> anchor = [], comps = [''file.txt''] \<rparr>
        \<and> modified_datetime lead_fs absolute_path = Inr m
        \<and> \<not> m + fst (effective_policy literal_match rule \<lparr> anchor = [], comps = [''file.txt''] \<rparr>)
               < days 738885 + hours 9
        \<and> L \<in> set (effective_notify literal_match rule \<lparr> anchor = [], comps = [''file.txt''] \<rparr>)
        \<and> 738893 = date_of (m + fst (effective_policy literal_match rule
                                          \<lparr> anchor = [], comps = [''file.txt''] \<rparr>) - L)
        \<and> date_of (days 738885 + hours 9) \<le> 738893
        \<and> 738893 \<le> date_of (days 738885 + hours 9) + 10)"
proof -
  have u: "upcoming_alerts literal_match lead_fs [lead_rule] 0
             (AsOfDatetime (days 738885 + hours 9)) 10
           = Inr [(738893, [lead_alert 738893]), (738890, [lead_alert 738890])]"
    by code_simp
  have u5: "upcoming_alerts literal_match lead_fs [lead_rule] 0
             (AsOfDatetime (days 738885 + hours 9)) 5
           = Inr [(738890, [lead_alert 738890])]"
    by code_simp
  have u4: "upcoming_alerts literal_match lead_fs [lead_rule] 0
             (AsOfDatetime (days 738885 + hours 9)) 4 = Inr []"
    by code_simp
  have past: "upcoming_alerts literal_match lead_fs [lead_rule] 0
             (AsOfDatetime (days 738895 + hours 10)) 10 = Inr []"
    by code_simp
  have listed: "\<exists>alerts a. (738893 :: int, alerts)
                    \<in> set [(738893, [lead_alert 738893]), (738890, [lead_alert 738890])]
                  \<and> a \<in> set alerts \<and> folder a = [''root'']
                  \<and> \<lparr> anchor = [], comps = [''file.txt''] \<rparr> \<in> set (files a)"
    by (intro exI[of _ "[lead_alert 738893]"] exI[of _ "lead_alert 738893"])
       (simp add: lead_alert_def)
  from alert_window [OF u, of 738893 "[''root'']" "\<lparr> anchor = [], comps = [''file.txt''] \<rparr>"]
  have "(\<exists>alerts a. (738893 :: int, alerts)
                    \<in> set [(738893, [lead_alert 738893]), (738890, [lead_alert 738890])]
                  \<and> a \<in> set alerts \<and> folder a = [''root'']
                  \<and> \<lparr> anchor = [], comps = [''file.txt''] \<rparr> \<in> set (files a))
        \<longleftrightarrow> (\<exists>rule found absolute_path m L.
          rule \<in> set [lead_rule] \<and> path rule = [''root'']
        \<and> path_exists lead_fs [''root''] \<and> path_is_dir lead_fs [''root'']
        \<and> iter_rule_entries lead_fs rule = Inr found
        \<and> (absolute_path, \<lparr> anchor = [], comps = [''file.txt''] \<rparr>) \<in> set found
        \<and> \<not> is_exempt rule \<lparr> anchor = [], comps = [''file.txt''] \<rparr>
        \<and> modified_datetime lead_fs absolute_path = Inr m
        \<and> \<not> m + fst (effective_policy literal_match rule \<lparr> anchor = [], comps = [''file.txt''] \<rparr>)
               < normalize_datetime 0 (AsOfDatetime (days 738885 + hours 9))
        \<and> L \<in> set (effective_notify literal_match rule \<lparr> anchor = [], comps = [''file.txt''] \<rparr>)
        \<and> 738893 = date_of (m + fst (effective_policy literal_match rule
                                          \<lparr> anchor = [], comps = [''file.txt''] \<rparr>) - L)
        \<and> date_of (normalize_datetime 0 (AsOfDatetime (days 738885 + hours 9))) \<le> 738893
        \<and> 738893 \<le> date_of (normalize_datetime 0 (AsOfDatetime (days 738885 + hours 9))) + 10)"
    by (rule conjunct1)
  from this listed
  have "\<exists>rule found absolute_path m L.
          rule \<in> set [lead_rule] \<and> path rule = [''root'']
        \<and> path_exists lead_fs [''root''] \<and> path_is_dir lead_fs [''root'']
        \<and> iter_rule_entries lead_fs rule = Inr found
        \<and> (absolute_path, \<lparr> anchor = [], comps = [''file.txt''] \<rparr>) \<in> set found
        \<and> \<not> is_exempt rule \<lparr> anchor = [], comps = [''file.txt''] \<rparr>
        \<and> modified_datetime lead_fs absolute_path = Inr m
        \<and> \<not> m + fst (effective_policy literal_match rule \<lparr> anchor = [], comps = [''file.txt''] \<rparr>)
               < days 738885 + hours 9
        \<and> L \<in> set (effective_notify literal_match rule \<lparr> anchor = [], comps = [''file.txt''] \<rparr>)
        \<and> 738893 = date_of (m + fst (effective_policy literal_match rule
                                          \<lparr> anchor = [], comps = [''file.txt''] \<rparr>) - L)
        \<and> date_of (days 738885 + hours 9) \<le> 738893
        \<and> 738893 \<le> date_of (days 738885 + hours 9) + 10"
    unfolding normalize_datetime.simps by (rule iffD1)
  with u u5 u4 past show ?thesis
    by (intro conjI)
qed


section \<open>Properties of the exemption test\<close>

lemma Path_name_empty: "name (Path s) = [] \<Longrightarrow> comps (Path s) = []"
proof (rule ccontr)
  assume n: "name (Path s) = []" and c: "comps (Path s) \<noteq> []"
  then have "last (comps (Path s)) \<in> set (comps (Path s))"
    by simp
  then have "last (comps (Path s)) \<noteq> []"
    by (simp add: Path_def)
  with n c show False
    by (simp add: name_def)
qed

lemma take_prefix_iff:
  "(length xs \<le> length ys \<and> take (length xs) ys = xs) \<longleftrightarrow> prefix xs ys"
  by (auto simp: prefix_def) (metis append_eq_conv_conj)

lemma exempt_loop_iff:
  "exempt_loop exs rel \<longleftrightarrow>
     list_ex (\<lambda>exemption.
        (is_absolute (Path exemption) \<and> Path exemption = rel)
        \<or> (\<not> is_absolute (Path exemption) \<and> prefix (parts (Path exemption)) (parts rel))
        \<or> (\<not> is_absolute (Path exemption) \<and> name (Path exemption) = name rel)) exs"
proof (induction exs)
  case Nil
  show ?case by simp
next
  case (Cons ex exs)
  have e: "\<not> is_absolute (Path ex) \<Longrightarrow> name (Path ex) = [] \<Longrightarrow> prefix (parts (Path ex)) (parts rel)"
    by (drule Path_name_empty) (simp add: parts_def is_absolute_def)
  show ?case
    using Cons e by (auto simp: Let_def take_prefix_iff)
qed

lemma is_exempt_code: "is_exempt rule rel \<longleftrightarrow> code_exempt rule rel"
  by (simp add: is_exempt_def code_exempt_def exempt_loop_iff)


end
